theory Spec2Isabelle
  imports Main "HOL-Library.Multiset"
begin

section \<open>Data model of \<open>src/index.ts\<close>\<close>

text \<open>
  The development follows the last revision of the plugin (the one with
  \<open>UploadTask\<close>, the stat phase and the byte counters).  JavaScript numbers that the
  plugin validates as integers (\<open>concurrency\<close>, \<open>retryTimes\<close>), the attempt counter and
  the retry counts are \<open>int\<close>, and so is \<open>multipartThreshold\<close>, a number of bytes.  The
  counters \<open>completed\<close> and \<open>failed\<close> count the entries of an array and are \<open>nat\<close>.
  The size that \<open>stat\<close> reports for a file is a whole number held in a JavaScript
  number, a \<open>nat\<close>; the byte totals that the code adds up with \<open>+\<close> are values of
  \<open>number\<close> below, added as JavaScript adds them.  An \<open>Error\<close> object is a value of
  \<open>js_error\<close>.  The console output, the spinner and its refresh timer are left out,
  except for the lines printed by \<open>uploadFileWithRetry\<close>; a call of \<open>updateProgress\<close>
  is recorded with the counters it reads.
\<close>

datatype js_error =
    FsError string
  | ClientError string
  | UploadFailedWithStatus int
  | MaxRetriesExceeded
  | FailedToUpload nat nat

subsection \<open>Byte totals\<close>

text \<open>
  A JavaScript number is an IEEE 754 double.  A byte total is never negative and never
  fractional, so its value is a natural number or \<open>Infinity\<close>.  The sum of two such
  numbers is the exact sum rounded to 53 significant bits, to the nearest value and to
  the even one of two nearest values; a rounded sum of \<open>2 ^ 1024\<close> or more is
  \<open>Infinity\<close>.

  \<open>bit_length n\<close> is the number of binary digits of \<open>n\<close>; \<open>ulp n\<close> is the distance
  between the doubles around \<open>n\<close>: 1 below \<open>2 ^ 53\<close>, 2 from there to \<open>2 ^ 54\<close>, and so
  on.
\<close>

datatype number = Finite nat | Infinity

fun bit_length :: "nat \<Rightarrow> nat" where
  "bit_length n = (if n = 0 then 0 else Suc (bit_length (n div 2)))"

declare bit_length.simps [simp del]

definition ulp :: "nat \<Rightarrow> nat" where
  "ulp n = 2 ^ (bit_length n - 53)"

definition round_to_double :: "nat \<Rightarrow> nat" where
  "round_to_double n =
     (if ulp n < 2 * (n mod ulp n) \<or> (2 * (n mod ulp n) = ulp n \<and> odd (n div ulp n))
      then (n div ulp n + 1) * ulp n
      else (n div ulp n) * ulp n)"

text \<open>A value has more than 1024 binary digits exactly when it is \<open>2 ^ 1024\<close> or more.\<close>

definition to_number :: "nat \<Rightarrow> number" where
  "to_number n =
     (if 1024 < bit_length (round_to_double n) then Infinity else Finite (round_to_double n))"

text \<open>\<open>total + size\<close>, for a byte total and the size of a file.\<close>

fun js_add :: "number \<Rightarrow> nat \<Rightarrow> number" where
  "js_add Infinity b = Infinity"
| "js_add (Finite a) b = to_number (a + b)"

text \<open>\<open>x <= y\<close> on byte totals, and the totals that are doubles.\<close>

fun number_le :: "number \<Rightarrow> number \<Rightarrow> bool" where
  "number_le (Finite a) (Finite b) = (a \<le> b)"
| "number_le x Infinity = True"
| "number_le Infinity (Finite b) = False"

fun is_double :: "number \<Rightarrow> bool" where
  "is_double Infinity = True"
| "is_double (Finite a) = (round_to_double a = a)"

subsection \<open>Results, tasks and options\<close>

text \<open>\<open>interface UploadResult\<close>; the fields \<open>file\<close> and \<open>size\<close> are \<open>result_file\<close> and \<open>result_size\<close>.\<close>

record UploadResult =
  success :: bool
  result_file :: string
  name :: string
  result_size :: nat
  retries :: int
  error :: "js_error option"

text \<open>\<open>interface UploadTask\<close>; \<open>name\<close> and \<open>size\<close> are \<open>task_name\<close> and \<open>task_size\<close>.\<close>

record UploadTask =
  filePath :: string
  task_name :: string
  task_size :: nat

text \<open>
  The options the transfer engine reads, with the closure variables \<open>outDir\<close> and
  \<open>useInteractiveOutput\<close> of \<open>vitePluginDeployOss\<close>.
\<close>

record vitePluginDeployOssOption =
  accessKeyId :: string
  accessKeySecret :: string
  region :: string
  bucket :: string
  uploadDir :: string
  overwrite :: bool
  autoDelete :: bool
  noCache :: bool
  failOnError :: bool
  concurrency :: int
  retryTimes :: int
  multipartThreshold :: int
  opt_open :: bool
  outDir :: string
  useInteractiveOutput :: bool

text \<open>
  What a call of \<open>client.put\<close> or \<open>client.multipartUpload\<close> settles to: the promise
  resolves with \<open>result.res.status\<close>, or rejects with an error.
\<close>

datatype response = Resolves int | Rejects js_error

text \<open>
  The object-store client.  The store is outside the program, so its answers are a
  parameter: the third argument numbers the successive calls made for one task (the
  attempt), which makes the answer of every call a function of the call.
\<close>

record oss =
  put :: "string \<Rightarrow> string \<Rightarrow> int \<Rightarrow> response"
  multipartUpload :: "string \<Rightarrow> string \<Rightarrow> int \<Rightarrow> response"

text \<open>
  The imported library functions: \<open>normalizePath\<close> (vite), \<open>resolve\<close> (node:path),
  \<open>stat\<close> and \<open>unlink\<close> (node:fs/promises; \<open>unlink\<close> answers \<open>None\<close> when the file
  was removed) and \<open>deleteEmpty\<close> (\<open>True\<close> when it throws).
\<close>

record environment =
  normalizePath :: "string \<Rightarrow> string"
  resolve :: "string \<Rightarrow> string \<Rightarrow> string"
  stat :: "string \<Rightarrow> js_error + nat"
  unlink :: "string \<Rightarrow> js_error option"
  deleteEmpty_throws :: bool

record headers =
  x_oss_storage_class :: string
  x_oss_object_acl :: string
  cache_control :: string
  x_oss_forbid_overwrite :: string

text \<open>
  The effects of one \<open>uploadFileWithRetry\<close>, in the order the code performs them:
  \<open>PutCall name path timeout headers\<close>,
  \<open>MultipartCall name path timeout partSize parallel headers\<close>, the \<open>unlink\<close> of
  the local file, the three console lines, and the \<open>setTimeout\<close> of the backoff (in
  milliseconds).
\<close>

datatype effect =
    PutCall string string int headers
  | MultipartCall string string int int int headers
  | UnlinkCall string
  | WarnUnlinkFailed string
  | LogFailed string js_error
  | LogRetry string int int
  | SetTimeout int

section \<open>Object keys\<close>

text \<open>
  \<open>.replace(/\/{2,}/g, '/')\<close>: every maximal run of two or more slashes becomes one
  slash.  Reading left to right, a slash that is followed by a slash is dropped, so the
  last slash of a run is the one that stays.
\<close>

fun replace_slash_runs :: "string \<Rightarrow> string" where
  "replace_slash_runs [] = []"
| "replace_slash_runs [c] = [c]"
| "replace_slash_runs (c # d # cs) =
     (if c = CHR ''/'' \<and> d = CHR ''/'' then replace_slash_runs (d # cs)
      else c # replace_slash_runs (d # cs))"

text \<open>\<open>.replace(/^\/+/, '')\<close>: the slashes at the start are removed.\<close>

definition strip_leading_slashes :: "string \<Rightarrow> string" where
  "strip_leading_slashes s = dropWhile (\<lambda>c. c = CHR ''/'') s"

definition normalizeObjectKey :: "environment \<Rightarrow> string \<Rightarrow> string \<Rightarrow> string" where
  "normalizeObjectKey env targetDir relativeFilePath =
     strip_leading_slashes
       (replace_slash_runs (normalizePath env (targetDir @ ''/'' @ relativeFilePath)))"

text \<open>The two shapes the key must not have.\<close>

definition leading_slash :: "string \<Rightarrow> bool" where
  "leading_slash s = (case s of [] \<Rightarrow> False | c # _ \<Rightarrow> c = CHR ''/'')"

fun doubled_slash :: "string \<Rightarrow> bool" where
  "doubled_slash [] = False"
| "doubled_slash [c] = False"
| "doubled_slash (c # d # cs) = ((c = CHR ''/'' \<and> d = CHR ''/'') \<or> doubled_slash (d # cs))"

section \<open>\<open>validateOptions\<close>\<close>

definition validateOptions :: "vitePluginDeployOssOption \<Rightarrow> string list" where
  "validateOptions opt =
     (if accessKeyId opt = [] then [''accessKeyId is required''] else []) @
     (if accessKeySecret opt = [] then [''accessKeySecret is required''] else []) @
     (if bucket opt = [] then [''bucket is required''] else []) @
     (if region opt = [] then [''region is required''] else []) @
     (if uploadDir opt = [] then [''uploadDir is required''] else []) @
     (if retryTimes opt < 1 then [''retryTimes must be >= 1''] else []) @
     (if concurrency opt < 1 then [''concurrency must be >= 1''] else []) @
     (if multipartThreshold opt \<le> 0 then [''multipartThreshold must be > 0''] else [])"

section \<open>\<open>uploadFileWithRetry\<close>\<close>

definition shouldUseMultipart :: "vitePluginDeployOssOption \<Rightarrow> UploadTask \<Rightarrow> bool" where
  "shouldUseMultipart opt task = (multipartThreshold opt \<le> int (task_size task))"

definition request_headers :: "vitePluginDeployOssOption \<Rightarrow> headers" where
  "request_headers opt =
     \<lparr> x_oss_storage_class = ''Standard'',
       x_oss_object_acl = ''default'',
       cache_control = (if noCache opt then ''no-cache'' else ''public, max-age=86400, immutable''),
       x_oss_forbid_overwrite = (if overwrite opt then ''false'' else ''true'') \<rparr>"

text \<open>The call one attempt makes (the conditional expression of the \<open>try\<close> block).\<close>

definition transfer_call :: "vitePluginDeployOssOption \<Rightarrow> UploadTask \<Rightarrow> effect" where
  "transfer_call opt task =
     (if shouldUseMultipart opt task
      then MultipartCall (task_name task) (filePath task) 600000 (1024 * 1024)
             (max 1 (min (concurrency opt) 4)) (request_headers opt)
      else PutCall (task_name task) (filePath task) 600000 (request_headers opt))"

definition transfer_response ::
  "vitePluginDeployOssOption \<Rightarrow> oss \<Rightarrow> UploadTask \<Rightarrow> int \<Rightarrow> response" where
  "transfer_response opt client task attempt =
     (if shouldUseMultipart opt task
      then multipartUpload client (task_name task) (filePath task) attempt
      else put client (task_name task) (filePath task) attempt)"

text \<open>
  What reaches the \<open>catch\<close> of an attempt: the rejection of the call, or the error
  thrown for a status other than 200; \<open>None\<close> when the attempt succeeded.
\<close>

definition attempt_error :: "response \<Rightarrow> js_error option" where
  "attempt_error r =
     (case r of
        Resolves st \<Rightarrow> if st = 200 then None else Some (UploadFailedWithStatus st)
      | Rejects e \<Rightarrow> Some e)"

text \<open>The auto-delete step after a successful attempt, with its inner \<open>try\<close>/\<open>catch\<close>.\<close>

definition cleanup_effects ::
  "vitePluginDeployOssOption \<Rightarrow> environment \<Rightarrow> UploadTask \<Rightarrow> effect list" where
  "cleanup_effects opt env task =
     (if autoDelete opt
      then UnlinkCall (filePath task) #
           (case unlink env (filePath task) of
              None \<Rightarrow> []
            | Some e \<Rightarrow> [WarnUnlinkFailed (filePath task)])
      else [])"

text \<open>
  The \<open>for\<close> loop of \<open>uploadFileWithRetry\<close> from a given attempt on: the result and
  the effects in order.  The last branch is the \<open>return\<close> after the loop.
\<close>

function uploadAttempts ::
  "vitePluginDeployOssOption \<Rightarrow> environment \<Rightarrow> oss \<Rightarrow> UploadTask \<Rightarrow> bool \<Rightarrow> int \<Rightarrow> int
     \<Rightarrow> UploadResult \<times> effect list" where
  "uploadAttempts opt env client task silentLogs maxRetries attempt =
     (if attempt \<le> maxRetries then
        (case attempt_error (transfer_response opt client task attempt) of
           None \<Rightarrow>
             (\<lparr> success = True, result_file = filePath task, name = task_name task,
                result_size = task_size task, retries = attempt - 1, error = None \<rparr>,
              transfer_call opt task # cleanup_effects opt env task)
         | Some err \<Rightarrow>
             if attempt = maxRetries then
               (\<lparr> success = False, result_file = filePath task, name = task_name task,
                  result_size = task_size task, retries = attempt - 1, error = Some err \<rparr>,
                transfer_call opt task #
                  (if silentLogs then [] else [LogFailed (filePath task) err]))
             else
               (case uploadAttempts opt env client task silentLogs maxRetries (attempt + 1) of
                  (r, effs) \<Rightarrow>
                    (r, transfer_call opt task #
                          (if silentLogs then [] else [LogRetry (filePath task) attempt maxRetries]) @
                          SetTimeout (1000 * attempt) # effs)))
      else
        (\<lparr> success = False, result_file = filePath task, name = task_name task,
           result_size = task_size task, retries = maxRetries,
           error = Some MaxRetriesExceeded \<rparr>, []))"
  by pat_completeness auto
termination
  by (relation "measure (\<lambda>(opt, env, client, task, silentLogs, maxRetries, attempt).
        nat (maxRetries + 1 - attempt))") auto

declare uploadAttempts.simps [simp del]

definition uploadFileWithRetry ::
  "vitePluginDeployOssOption \<Rightarrow> environment \<Rightarrow> oss \<Rightarrow> UploadTask \<Rightarrow> bool \<Rightarrow> int
     \<Rightarrow> UploadResult \<times> effect list" where
  "uploadFileWithRetry opt env client task silentLogs maxRetries =
     uploadAttempts opt env client task silentLogs maxRetries 1"

section \<open>\<open>uploadFilesInBatches\<close>\<close>

text \<open>
  What one callback of \<open>files.map\<close> returns: the task, or the error of \<open>stat\<close> with
  the path and the key.
\<close>

datatype candidate = Task UploadTask | StatFailed js_error string string

definition candidate_path :: "vitePluginDeployOssOption \<Rightarrow> environment \<Rightarrow> string \<Rightarrow> string" where
  "candidate_path opt env relativeFilePath =
     normalizePath env (resolve env (outDir opt) relativeFilePath)"

definition taskCandidate ::
  "vitePluginDeployOssOption \<Rightarrow> environment \<Rightarrow> string \<Rightarrow> candidate" where
  "taskCandidate opt env relativeFilePath =
     (case stat env (candidate_path opt env relativeFilePath) of
        Inr sz \<Rightarrow>
          Task \<lparr> filePath = candidate_path opt env relativeFilePath,
                 task_name = normalizeObjectKey env (uploadDir opt) relativeFilePath,
                 task_size = sz \<rparr>
      | Inl e \<Rightarrow>
          StatFailed e (candidate_path opt env relativeFilePath)
            (normalizeObjectKey env (uploadDir opt) relativeFilePath))"

text \<open>
  The events of a batch run in the order they happen.  A worker is named by its
  position in \<open>Array.from({ length: safeWindowSize }, () => worker())\<close>.
\<close>

datatype pool_event =
    StatIssued string
  | StatSettled string
  | WorkerSpawned nat
  | TransferBegun nat nat
  | TransferSettled nat nat "effect list"
  | WorkerReturned nat

text \<open>What a call of \<open>updateProgress\<close> reads of the counters.\<close>

record progress =
  p_completed :: nat
  p_failed :: nat
  p_uploadedBytes :: number
  p_retries :: int
  p_active :: "string list"

text \<open>
  The local variables of \<open>uploadFilesInBatches\<close> that change during the run (the
  counter \<open>retries\<close> is \<open>retries_count\<close>), the workers suspended at
  \<open>await uploadFileWithRetry\<close> with the index each one holds, and the two logs.
  \<open>activeFiles\<close> is a \<open>Set\<close>: a list in insertion order without repetition.
\<close>

record batch_state =
  results :: "UploadResult list"
  completed :: nat
  failed :: nat
  uploadedBytes :: number
  retries_count :: int
  currentIndex :: nat
  activeFiles :: "string list"
  awaiting :: "(nat \<times> nat) list"
  progress_log :: "progress list"
  timeline :: "pool_event list"

definition initial_state :: "pool_event list \<Rightarrow> batch_state" where
  "initial_state evs =
     \<lparr> results = [], completed = 0, failed = 0, uploadedBytes = Finite 0,
       retries_count = 0,
       currentIndex = 0, activeFiles = [], awaiting = [], progress_log = [],
       timeline = evs \<rparr>"

text \<open>
  A schedule stands for the order in which pending promises settle: each number picks
  one of the promises pending at that moment (modulo their count); an exhausted
  schedule picks the oldest.
\<close>

fun next_choice :: "nat list \<Rightarrow> nat" where
  "next_choice [] = 0"
| "next_choice (k # _) = k"

function settle_order :: "nat list \<Rightarrow> 'a list \<Rightarrow> 'a list" where
  "settle_order sched xs =
     (if xs = [] then []
      else xs ! (next_choice sched mod length xs) #
           settle_order (tl sched)
             (take (next_choice sched mod length xs) xs @
              drop (Suc (next_choice sched mod length xs)) xs))"
  by pat_completeness auto
termination
proof (relation "measure (\<lambda>(sched, xs). length xs)", goal_cases)
  case 1
  show ?case by simp
next
  case (2 sched xs)
  then have "next_choice sched mod length xs < length xs" by simp
  then show ?case by simp
qed

declare settle_order.simps [simp del]

text \<open>
  \<open>Promise.all(files.map(async ...))\<close>: every callback runs up to its \<open>await stat\<close>
  when \<open>map\<close> calls it, so all lookups are issued before the first one settles.
\<close>

definition stat_events ::
  "vitePluginDeployOssOption \<Rightarrow> environment \<Rightarrow> string list \<Rightarrow> nat list \<Rightarrow> pool_event list" where
  "stat_events opt env files stat_sched =
     map StatIssued (map (candidate_path opt env) files) @
     map StatSettled (settle_order stat_sched (map (candidate_path opt env) files))"

text \<open>The loop \<open>for (const candidate of taskCandidates)\<close>.\<close>

fun sort_candidates ::
  "candidate list \<Rightarrow> UploadTask list \<times> batch_state \<Rightarrow> UploadTask list \<times> batch_state" where
  "sort_candidates [] acc = acc"
| "sort_candidates (Task t # cs) (tasks, s) = sort_candidates cs (tasks @ [t], s)"
| "sort_candidates (StatFailed e path key # cs) (tasks, s) =
     sort_candidates cs
       (tasks,
        s\<lparr> failed := failed s + 1,
           completed := completed s + 1,
           results := results s @
             [\<lparr> success = False, result_file = path, name = key, result_size = 0,
                retries = 0, error = Some e \<rparr>] \<rparr>)"

definition updateProgress :: "batch_state \<Rightarrow> batch_state" where
  "updateProgress s =
     s\<lparr> progress_log := progress_log s @
         [\<lparr> p_completed = completed s, p_failed = failed s,
            p_uploadedBytes = uploadedBytes s, p_retries = retries_count s,
            p_active = activeFiles s \<rparr>] \<rparr>"

definition set_add :: "string \<Rightarrow> string list \<Rightarrow> string list" where
  "set_add x xs = (if x \<in> set xs then xs else xs @ [x])"

text \<open>
  The head of the \<open>while\<close> loop of \<open>worker\<close>, up to the \<open>await\<close>: claim the next
  index, return when it is past the tasks, else mark the task active and start
  \<open>uploadFileWithRetry\<close>.
\<close>

definition worker_claim :: "UploadTask list \<Rightarrow> nat \<Rightarrow> batch_state \<Rightarrow> batch_state" where
  "worker_claim tasks w s =
     (if length tasks \<le> currentIndex s
      then s\<lparr> currentIndex := currentIndex s + 1,
              timeline := timeline s @ [WorkerReturned w] \<rparr>
      else (updateProgress
              (s\<lparr> currentIndex := currentIndex s + 1,
                  activeFiles := set_add (task_name (tasks ! currentIndex s)) (activeFiles s) \<rparr>))
           \<lparr> awaiting := awaiting s @ [(w, currentIndex s)],
             timeline := timeline s @ [TransferBegun w (currentIndex s)] \<rparr>)"

text \<open>
  The rest of the loop body, run when the transfer of worker \<open>w\<close> for \<open>index\<close> has
  settled, and then the head of the next iteration.
\<close>

definition record_result :: "UploadResult \<Rightarrow> batch_state \<Rightarrow> batch_state" where
  "record_result result s =
     (if success result
      then s\<lparr> completed := completed s + 1,
              retries_count := retries_count s + retries result,
              uploadedBytes := js_add (uploadedBytes s) (result_size result) \<rparr>
      else s\<lparr> completed := completed s + 1,
              retries_count := retries_count s + retries result,
              failed := failed s + 1 \<rparr>)"

definition worker_resume ::
  "vitePluginDeployOssOption \<Rightarrow> environment \<Rightarrow> oss \<Rightarrow> UploadTask list \<Rightarrow> nat \<Rightarrow> nat
     \<Rightarrow> batch_state \<Rightarrow> batch_state" where
  "worker_resume opt env client tasks w index s =
     (case uploadFileWithRetry opt env client (tasks ! index) (useInteractiveOutput opt)
             (retryTimes opt) of
        (result, effs) \<Rightarrow>
          worker_claim tasks w
            (updateProgress
               ((record_result result s)
                  \<lparr> results := results s @ [result],
                    activeFiles := removeAll (task_name (tasks ! index)) (activeFiles s),
                    timeline := timeline s @ [TransferSettled w index effs] \<rparr>)))"

text \<open>The \<open>k\<close>-th suspended worker is the next one whose transfer settles.\<close>

definition settle ::
  "vitePluginDeployOssOption \<Rightarrow> environment \<Rightarrow> oss \<Rightarrow> UploadTask list \<Rightarrow> nat
     \<Rightarrow> batch_state \<Rightarrow> batch_state" where
  "settle opt env client tasks k s =
     (case awaiting s ! k of
        (w, index) \<Rightarrow>
          worker_resume opt env client tasks w index
            (s\<lparr> awaiting := take k (awaiting s) @ drop (Suc k) (awaiting s) \<rparr>))"

text \<open>\<open>await Promise.all(...)\<close> over the workers: transfers settle until none is pending.\<close>

function drain ::
  "vitePluginDeployOssOption \<Rightarrow> environment \<Rightarrow> oss \<Rightarrow> UploadTask list \<Rightarrow> nat list
     \<Rightarrow> batch_state \<Rightarrow> batch_state" where
  "drain opt env client tasks sched s =
     (if awaiting s = [] then s
      else drain opt env client tasks (tl sched)
             (settle opt env client tasks (next_choice sched mod length (awaiting s)) s))"
  by pat_completeness auto
termination
proof (relation "measure (\<lambda>(opt, env, client, tasks, sched, s).
         (length tasks - currentIndex s) + length (awaiting s))", goal_cases)
  case 1
  show ?case by simp
next
  case (2 opt env client tasks sched s)
  then have "next_choice sched mod length (awaiting s) < length (awaiting s)" by simp
  then show ?case
    by (auto simp: settle_def worker_resume_def worker_claim_def updateProgress_def
          record_result_def split: prod.splits)
qed

declare drain.simps [simp del]

text \<open>\<open>Math.max(1, Math.min(windowSize, tasks.length || 1))\<close>, as the number of workers.\<close>

definition safeWindowSize :: "int \<Rightarrow> UploadTask list \<Rightarrow> nat" where
  "safeWindowSize windowSize tasks =
     nat (max 1 (min windowSize (if length tasks = 0 then 1 else int (length tasks))))"

definition spawn_worker :: "UploadTask list \<Rightarrow> nat \<Rightarrow> batch_state \<Rightarrow> batch_state" where
  "spawn_worker tasks w s = worker_claim tasks w (s\<lparr> timeline := timeline s @ [WorkerSpawned w] \<rparr>)"

text \<open>
  The whole of \<open>uploadFilesInBatches\<close>: the stat phase, the loop over the candidates,
  the first \<open>updateProgress\<close>, the workers, and the wait for them.  \<open>run_batch\<close> is the
  state when the function returns; the function returns \<open>results\<close>.
\<close>

definition batch_tasks ::
  "vitePluginDeployOssOption \<Rightarrow> environment \<Rightarrow> string list \<Rightarrow> UploadTask list" where
  "batch_tasks opt env files =
     fst (sort_candidates (map (taskCandidate opt env) files) ([], initial_state []))"

definition run_batch ::
  "vitePluginDeployOssOption \<Rightarrow> environment \<Rightarrow> oss \<Rightarrow> string list \<Rightarrow> int \<Rightarrow> nat list \<Rightarrow> nat list
     \<Rightarrow> batch_state" where
  "run_batch opt env client files windowSize stat_sched sched =
     (case sort_candidates (map (taskCandidate opt env) files)
             ([], initial_state (stat_events opt env files stat_sched)) of
        (tasks, s) \<Rightarrow>
          drain opt env client tasks sched
            (fold (spawn_worker tasks) [0..<safeWindowSize windowSize tasks]
               (updateProgress s)))"

definition uploadFilesInBatches ::
  "vitePluginDeployOssOption \<Rightarrow> environment \<Rightarrow> oss \<Rightarrow> string list \<Rightarrow> int \<Rightarrow> nat list \<Rightarrow> nat list
     \<Rightarrow> UploadResult list" where
  "uploadFilesInBatches opt env client files windowSize stat_sched sched =
     results (run_batch opt env client files windowSize stat_sched sched)"

section \<open>The plugin hooks\<close>

record plugin_state =
  upload :: bool
  buildFailed :: bool
  resolvedConfig :: bool

text \<open>The hook \<open>config\<close>: the upload is armed only when the options validate.\<close>

definition config_hook :: "vitePluginDeployOssOption \<Rightarrow> plugin_state \<Rightarrow> plugin_state" where
  "config_hook opt ps =
     (if \<not> opt_open opt \<or> buildFailed ps then ps
      else if validateOptions opt \<noteq> [] then ps
      else ps\<lparr> upload := True \<rparr>)"

text \<open>The figures \<open>closeBundle\<close> computes from the results before it prints them.\<close>

record batch_summary =
  successCount :: nat
  failedCount :: nat
  summary_uploadedBytes :: number
  retryCount :: int

definition summarise :: "UploadResult list \<Rightarrow> batch_summary" where
  "summarise rs =
     \<lparr> successCount = length (filter success rs),
       failedCount = length rs - length (filter success rs),
       summary_uploadedBytes =
         fold (\<lambda>result sum. if success result then js_add sum (result_size result) else sum)
           rs (Finite 0),
       retryCount = fold (\<lambda>result sum. sum + retries result) rs 0 \<rparr>"

text \<open>
  The handler of \<open>closeBundle\<close>: what it collected (\<open>None\<close> when it returned before the
  upload) and the error it throws, if any.  The \<open>throw\<close> at the end of the \<open>try\<close> block
  lands in the \<open>catch\<close>, which rethrows when \<open>failOnError\<close> is set.  A failure of
  \<open>deleteEmpty\<close> is caught where it happens and only printed.  \<open>found\<close> is the answer
  of \<open>globSync\<close>.
\<close>

record handler_outcome =
  collected :: "UploadResult list option"
  summary :: "batch_summary option"
  cleanup_warned :: bool
  thrown :: "js_error option"

definition closeBundle_handler ::
  "vitePluginDeployOssOption \<Rightarrow> plugin_state \<Rightarrow> environment \<Rightarrow> oss \<Rightarrow> string list
     \<Rightarrow> nat list \<Rightarrow> nat list \<Rightarrow> handler_outcome" where
  "closeBundle_handler opt ps env client found stat_sched sched =
     (if \<not> opt_open opt \<or> \<not> upload ps \<or> buildFailed ps \<or> \<not> resolvedConfig ps
      then \<lparr> collected = None, summary = None, cleanup_warned = False, thrown = None \<rparr>
      else if map (normalizePath env) found = []
      then \<lparr> collected = None, summary = None, cleanup_warned = False, thrown = None \<rparr>
      else
        (case uploadFilesInBatches opt env client (map (normalizePath env) found)
                (concurrency opt) stat_sched sched of
           rs \<Rightarrow>
             \<lparr> collected = Some rs,
               summary = Some (summarise rs),
               cleanup_warned = deleteEmpty_throws env,
               thrown =
                 (case (if 0 < failedCount (summarise rs) \<and> failOnError opt
                        then Some (FailedToUpload (failedCount (summarise rs)) (length rs))
                        else None) of
                    None \<Rightarrow> None
                  | Some e \<Rightarrow> if failOnError opt then Some e else None) \<rparr>))"

section \<open>Readings of the logs\<close>

text \<open>The stat lookups issued and not yet settled after a sequence of events.\<close>

fun in_flight_from :: "nat \<Rightarrow> pool_event list \<Rightarrow> nat" where
  "in_flight_from n [] = n"
| "in_flight_from n (StatIssued _ # es) = in_flight_from (Suc n) es"
| "in_flight_from n (StatSettled _ # es) = in_flight_from (n - 1) es"
| "in_flight_from n (_ # es) = in_flight_from n es"

definition stats_in_flight :: "pool_event list \<Rightarrow> nat" where
  "stats_in_flight es = in_flight_from 0 es"

fun is_stat_event :: "pool_event \<Rightarrow> bool" where
  "is_stat_event (StatIssued _) = True"
| "is_stat_event (StatSettled _) = True"
| "is_stat_event _ = False"

text \<open>The task indices of the transfers begun, and of those settled, in order.\<close>

fun begun_indices :: "pool_event list \<Rightarrow> nat list" where
  "begun_indices [] = []"
| "begun_indices (TransferBegun w i # es) = i # begun_indices es"
| "begun_indices (_ # es) = begun_indices es"

fun settled_indices :: "pool_event list \<Rightarrow> nat list" where
  "settled_indices [] = []"
| "settled_indices (TransferSettled w i effs # es) = i # settled_indices es"
| "settled_indices (_ # es) = settled_indices es"

fun spawned_workers :: "pool_event list \<Rightarrow> nat list" where
  "spawned_workers [] = []"
| "spawned_workers (WorkerSpawned w # es) = w # spawned_workers es"
| "spawned_workers (_ # es) = spawned_workers es"

text \<open>The calls of \<open>client.put\<close> and \<open>client.multipartUpload\<close> among some effects.\<close>

fun is_transfer_call :: "effect \<Rightarrow> bool" where
  "is_transfer_call (PutCall k p t h) = True"
| "is_transfer_call (MultipartCall k p t ps par h) = True"
| "is_transfer_call _ = False"

fun settled_effects :: "pool_event list \<Rightarrow> effect list" where
  "settled_effects [] = []"
| "settled_effects (TransferSettled w i effs # es) = effs @ settled_effects es"
| "settled_effects (_ # es) = settled_effects es"

definition client_calls :: "pool_event list \<Rightarrow> effect list" where
  "client_calls es = filter is_transfer_call (settled_effects es)"

text \<open>
  The attempts and the backoff delays of one \<open>uploadFileWithRetry\<close>, in order, with
  the console lines and the cleanup left out.
\<close>

datatype pace = Attempt | Delay int

fun pacing :: "effect list \<Rightarrow> pace list" where
  "pacing [] = []"
| "pacing (PutCall k p t h # es) = Attempt # pacing es"
| "pacing (MultipartCall k p t ps par h # es) = Attempt # pacing es"
| "pacing (SetTimeout d # es) = Delay d # pacing es"
| "pacing (_ # es) = pacing es"

fun delays :: "effect list \<Rightarrow> int list" where
  "delays [] = []"
| "delays (SetTimeout d # es) = d # delays es"
| "delays (_ # es) = delays es"

text \<open>The result the code gives a candidate whose \<open>stat\<close> failed.\<close>

definition stat_failure_result :: "js_error \<Rightarrow> string \<Rightarrow> string \<Rightarrow> UploadResult" where
  "stat_failure_result e path key =
     \<lparr> success = False, result_file = path, name = key, result_size = 0, retries = 0,
       error = Some e \<rparr>"

text \<open>
  The result one candidate ends with: the stat failure, or what \<open>uploadFileWithRetry\<close>
  returns for its task.
\<close>

definition candidate_result ::
  "vitePluginDeployOssOption \<Rightarrow> environment \<Rightarrow> oss \<Rightarrow> string \<Rightarrow> UploadResult" where
  "candidate_result opt env client relativeFilePath =
     (case taskCandidate opt env relativeFilePath of
        Task t \<Rightarrow>
          fst (uploadFileWithRetry opt env client t (useInteractiveOutput opt) (retryTimes opt))
      | StatFailed e path key \<Rightarrow> stat_failure_result e path key)"

fun stat_failures :: "candidate list \<Rightarrow> UploadResult list" where
  "stat_failures [] = []"
| "stat_failures (Task t # cs) = stat_failures cs"
| "stat_failures (StatFailed e path key # cs) = stat_failure_result e path key # stat_failures cs"

section \<open>Parts of the batch run\<close>

text \<open>The tasks among the candidates: what the loop over \<open>taskCandidates\<close> pushes to \<open>tasks\<close>.\<close>

fun candidate_tasks :: "candidate list \<Rightarrow> UploadTask list" where
  "candidate_tasks [] = []"
| "candidate_tasks (Task t # cs) = t # candidate_tasks cs"
| "candidate_tasks (StatFailed e path key # cs) = candidate_tasks cs"

text \<open>The state after the first \<open>updateProgress\<close>, before the workers are created.\<close>

definition start_state ::
  "vitePluginDeployOssOption \<Rightarrow> environment \<Rightarrow> string list \<Rightarrow> nat list \<Rightarrow> batch_state" where
  "start_state opt env files stat_sched =
     updateProgress
       (snd (sort_candidates (map (taskCandidate opt env) files)
               ([], initial_state (stat_events opt env files stat_sched))))"

text \<open>
  The result and the effects of the transfer of the task at an index, as \<open>worker\<close> calls
  it: \<open>uploadFileWithRetry(client, task, silentLogs)\<close>, with \<open>maxRetries\<close> defaulting
  to \<open>retryTimes\<close>.
\<close>

definition transfer_of ::
  "vitePluginDeployOssOption \<Rightarrow> environment \<Rightarrow> oss \<Rightarrow> UploadTask list \<Rightarrow> nat
     \<Rightarrow> UploadResult \<times> effect list" where
  "transfer_of opt env client tasks i =
     uploadFileWithRetry opt env client (tasks ! i) (useInteractiveOutput opt) (retryTimes opt)"

definition task_result ::
  "vitePluginDeployOssOption \<Rightarrow> environment \<Rightarrow> oss \<Rightarrow> UploadTask \<Rightarrow> UploadResult" where
  "task_result opt env client t =
     fst (uploadFileWithRetry opt env client t (useInteractiveOutput opt) (retryTimes opt))"

section \<open>Concrete inputs\<close>

definition demo_opt :: vitePluginDeployOssOption where
  "demo_opt =
     \<lparr> accessKeyId = ''id'', accessKeySecret = ''secret'', region = ''oss-cn-beijing'',
       bucket = ''bucket'', uploadDir = ''/test/__test/'', overwrite = True,
       autoDelete = True, noCache = False, failOnError = True, concurrency = 2,
       retryTimes = 3, multipartThreshold = 10, opt_open = True, outDir = ''dist'',
       useInteractiveOutput = False \<rparr>"

text \<open>
  An environment where paths are already normal, \<open>dist/gone.js\<close> cannot be read, a file
  has as many bytes as its path has characters, and no file can be removed.
\<close>

definition demo_env :: environment where
  "demo_env =
     \<lparr> normalizePath = (\<lambda>p. p),
       resolve = (\<lambda>dir p. dir @ ''/'' @ p),
       stat = (\<lambda>p. if p = ''dist/gone.js'' then Inl (FsError ''ENOENT'') else Inr (length p)),
       unlink = (\<lambda>p. Some (FsError ''EPERM'')),
       deleteEmpty_throws = False \<rparr>"

text \<open>
  A store that accepts everything, one that answers 503 to every call, and one that
  rejects the first call for a task and accepts the second.
\<close>

definition accepting_client :: oss where
  "accepting_client =
     \<lparr> put = (\<lambda>k p a. Resolves 200), multipartUpload = (\<lambda>k p a. Resolves 200) \<rparr>"

definition failing_client :: oss where
  "failing_client =
     \<lparr> put = (\<lambda>k p a. Resolves 503), multipartUpload = (\<lambda>k p a. Resolves 503) \<rparr>"

definition flaky_client :: oss where
  "flaky_client =
     \<lparr> put = (\<lambda>k p a. if a = 1 then Rejects (ClientError ''ETIMEDOUT'') else Resolves 200),
       multipartUpload =
         (\<lambda>k p a. if a = 1 then Rejects (ClientError ''ETIMEDOUT'') else Resolves 200) \<rparr>"

text \<open>An environment with a file of \<open>2 ^ 53\<close> bytes; every other file has one byte.\<close>

definition huge_env :: environment where
  "huge_env =
     \<lparr> normalizePath = (\<lambda>p. p),
       resolve = (\<lambda>dir p. dir @ ''/'' @ p),
       stat = (\<lambda>p. if p = ''dist/huge.bin'' then Inr 9007199254740992 else Inr 1),
       unlink = (\<lambda>p. None),
       deleteEmpty_throws = False \<rparr>"

definition demo_task :: UploadTask where
  "demo_task = \<lparr> filePath = ''dist/a.js'', task_name = ''test/__test/a.js'', task_size = 9 \<rparr>"

definition armed :: plugin_state where
  "armed = \<lparr> upload = True, buildFailed = False, resolvedConfig = True \<rparr>"

section \<open>Key normalisation\<close>

lemma replace_slash_runs_head:
  "\<exists>rest. replace_slash_runs (d # cs) = d # rest"
  by (induction cs arbitrary: d) auto

lemma replace_slash_runs_not_doubled: "\<not> doubled_slash (replace_slash_runs s)"
proof (induction s rule: replace_slash_runs.induct)
  case (3 c d cs)
  obtain rest where r: "replace_slash_runs (d # cs) = d # rest"
    using replace_slash_runs_head by blast
  with 3 show ?case by auto
qed simp_all

lemma doubled_slash_dropWhile:
  "doubled_slash (dropWhile P s) \<Longrightarrow> doubled_slash s"
  by (induction s rule: doubled_slash.induct) (auto split: if_splits)

lemma strip_leading_slashes_no_lead: "\<not> leading_slash (strip_leading_slashes s)"
  unfolding leading_slash_def strip_leading_slashes_def
  by (induction s) auto

lemma replace_slash_runs_fixed:
  "\<not> doubled_slash s \<Longrightarrow> replace_slash_runs s = s"
  by (induction s rule: doubled_slash.induct) auto

lemma replace_slash_runs_idem:
  "replace_slash_runs (replace_slash_runs s) = replace_slash_runs s"
  by (simp add: replace_slash_runs_fixed replace_slash_runs_not_doubled)

lemma replace_slash_runs_append:
  "replace_slash_runs (u @ v) = replace_slash_runs (u @ replace_slash_runs v)"
proof (induction u rule: replace_slash_runs.induct)
  case 1
  show ?case by (simp add: replace_slash_runs_idem)
next
  case (2 c)
  show ?case
  proof (cases v)
    case Nil
    then show ?thesis by simp
  next
    case (Cons d v')
    obtain rest where r: "replace_slash_runs (d # v') = d # rest"
      using replace_slash_runs_head by blast
    have b: "replace_slash_runs (d # rest) = d # rest"
      using replace_slash_runs_idem [of "d # v'"] r by simp
    show ?thesis
    proof (cases "c = CHR ''/'' \<and> d = CHR ''/''")
      case True
      then have "replace_slash_runs ([c] @ v) = replace_slash_runs (d # v')"
        by (simp add: Cons)
      moreover from True have "replace_slash_runs ([c] @ (d # rest)) = replace_slash_runs (d # rest)"
        by simp
      ultimately show ?thesis by (simp only: Cons r b)
    next
      case False
      then have "replace_slash_runs ([c] @ v) = c # replace_slash_runs (d # v')"
        by (simp add: Cons)
      moreover from False have "replace_slash_runs ([c] @ (d # rest)) = c # replace_slash_runs (d # rest)"
        by simp
      ultimately show ?thesis by (simp only: Cons r b)
    qed
  qed
next
  case (3 c d cs)
  then show ?case by simp
qed

text \<open>
  Claim C8.  For every target prefix and candidate path the key computed by
  \<open>normalizeObjectKey\<close> has no leading slash and no doubled slash, whatever
  \<open>normalizePath\<close> returns.  When \<open>normalizePath\<close> respects the collapsing of slash
  runs (two paths that differ only in the length of their slash runs are normalised to
  paths that differ only so, as \<open>path.posix.normalize\<close> does), two candidates that
  differ only in repeated separators get the same key; in particular \<open>a//b/c.js\<close> and
  \<open>a/b/c.js\<close> do.
\<close>

theorem normalizeObjectKey_normal:
  "\<not> leading_slash (normalizeObjectKey env targetDir relativeFilePath) \<and>
   \<not> doubled_slash (normalizeObjectKey env targetDir relativeFilePath) \<and>
   ((\<forall>s t. replace_slash_runs s = replace_slash_runs t \<longrightarrow>
            replace_slash_runs (normalizePath env s) = replace_slash_runs (normalizePath env t)) \<longrightarrow>
    normalizeObjectKey env targetDir ''a//b/c.js'' = normalizeObjectKey env targetDir ''a/b/c.js'' \<and>
    (replace_slash_runs f = replace_slash_runs g \<longrightarrow>
       normalizeObjectKey env targetDir f = normalizeObjectKey env targetDir g))"
proof (intro conjI impI)
  show "\<not> leading_slash (normalizeObjectKey env targetDir relativeFilePath)"
    by (simp add: normalizeObjectKey_def strip_leading_slashes_no_lead)
  show "\<not> doubled_slash (normalizeObjectKey env targetDir relativeFilePath)"
    unfolding normalizeObjectKey_def strip_leading_slashes_def
    using doubled_slash_dropWhile replace_slash_runs_not_doubled by blast
next
  assume np: "\<forall>s t. replace_slash_runs s = replace_slash_runs t \<longrightarrow>
            replace_slash_runs (normalizePath env s) = replace_slash_runs (normalizePath env t)"
  have key: "normalizeObjectKey env targetDir x = normalizeObjectKey env targetDir y"
    if "replace_slash_runs x = replace_slash_runs y" for x y
  proof -
    have "replace_slash_runs ((targetDir @ ''/'') @ x) =
          replace_slash_runs ((targetDir @ ''/'') @ replace_slash_runs x)"
      by (rule replace_slash_runs_append)
    also have "\<dots> = replace_slash_runs ((targetDir @ ''/'') @ replace_slash_runs y)"
      by (simp only: that)
    also have "\<dots> = replace_slash_runs ((targetDir @ ''/'') @ y)"
      by (rule replace_slash_runs_append [symmetric])
    finally have "replace_slash_runs ((targetDir @ ''/'') @ x) =
          replace_slash_runs ((targetDir @ ''/'') @ y)" .
    then have "replace_slash_runs (targetDir @ ''/'' @ x) =
          replace_slash_runs (targetDir @ ''/'' @ y)"
      by simp
    then have "replace_slash_runs (normalizePath env (targetDir @ ''/'' @ x)) =
               replace_slash_runs (normalizePath env (targetDir @ ''/'' @ y))"
      by (rule np [rule_format])
    then show ?thesis by (simp add: normalizeObjectKey_def)
  qed
  show "normalizeObjectKey env targetDir ''a//b/c.js'' = normalizeObjectKey env targetDir ''a/b/c.js''"
    by (rule key) simp
  show "normalizeObjectKey env targetDir f = normalizeObjectKey env targetDir g"
    if "replace_slash_runs f = replace_slash_runs g"
    using that by (rule key)
qed

text \<open>The theorem at the options of \<open>vite.config.ts\<close>, with paths already normal.\<close>

theorem normalizeObjectKey_normal_witness:
  "normalizeObjectKey demo_env ''/test/__test/'' ''a//b/c.js'' = ''test/__test/a/b/c.js'' \<and>
   normalizeObjectKey demo_env ''/test/__test/'' ''a/b/c.js'' = ''test/__test/a/b/c.js'' \<and>
   \<not> leading_slash ''test/__test/a/b/c.js'' \<and> \<not> doubled_slash ''test/__test/a/b/c.js''"
proof -
  have np: "\<forall>s t. replace_slash_runs s = replace_slash_runs t \<longrightarrow>
      replace_slash_runs (normalizePath demo_env s) = replace_slash_runs (normalizePath demo_env t)"
    by (simp add: demo_env_def)
  have k: "normalizeObjectKey demo_env ''/test/__test/'' ''a//b/c.js'' = ''test/__test/a/b/c.js''"
    by (simp add: normalizeObjectKey_def demo_env_def strip_leading_slashes_def)
  note t = normalizeObjectKey_normal [of demo_env "''/test/__test/''" "''a//b/c.js''" "''x''" "''x''"]
  have 1: "\<not> leading_slash ''test/__test/a/b/c.js''"
    using t [THEN conjunct1] unfolding k .
  have 2: "\<not> doubled_slash ''test/__test/a/b/c.js''"
    using t [THEN conjunct2, THEN conjunct1] unfolding k .
  have 3: "normalizeObjectKey demo_env ''/test/__test/'' ''a/b/c.js'' = ''test/__test/a/b/c.js''"
    using t [THEN conjunct2, THEN conjunct2, THEN mp, OF np, THEN conjunct1] unfolding k by (rule sym)
  show ?thesis by (intro conjI) (rule k 1 2 3)+
qed

section \<open>Validated options\<close>

text \<open>
  The hook \<open>config\<close> arms the upload only for options that pass \<open>validateOptions\<close>, and
  \<open>closeBundle\<close> uploads only when armed: a run always has \<open>retryTimes \<ge> 1\<close>,
  \<open>concurrency \<ge> 1\<close> and \<open>multipartThreshold > 0\<close>.
\<close>

lemma validateOptions_bounds:
  assumes "validateOptions opt = []"
  shows "1 \<le> retryTimes opt" and "1 \<le> concurrency opt" and "0 < multipartThreshold opt"
  using assms by (auto simp: validateOptions_def split: if_splits)

lemma config_hook_arms:
  assumes "upload (config_hook opt ps)" and "\<not> upload ps"
  shows "validateOptions opt = []"
  using assms by (auto simp: config_hook_def split: if_splits)

lemma closeBundle_needs_armed:
  assumes "collected (closeBundle_handler opt ps env client found stat_sched sched) \<noteq> None"
  shows "upload ps \<and> \<not> buildFailed ps \<and> opt_open opt \<and> found \<noteq> []"
  using assms by (auto simp: closeBundle_handler_def split: if_splits)

section \<open>The retry loop\<close>

lemma pacing_append: "pacing (xs @ ys) = pacing xs @ pacing ys"
  by (induction xs rule: pacing.induct) simp_all

lemma delays_append: "delays (xs @ ys) = delays xs @ delays ys"
  by (induction xs rule: delays.induct) simp_all

lemma pacing_transfer_call: "pacing (transfer_call opt task # es) = Attempt # pacing es"
  by (simp add: transfer_call_def)

lemma delays_transfer_call: "delays (transfer_call opt task # es) = delays es"
  by (simp add: transfer_call_def)

lemma is_transfer_call_transfer_call: "is_transfer_call (transfer_call opt task)"
  by (simp add: transfer_call_def)

lemma uploadAttempts_failed_step:
  assumes "attempt < maxRetries"
    and "attempt_error (transfer_response opt client task attempt) = Some err"
  shows "uploadAttempts opt env client task silentLogs maxRetries attempt =
     (fst (uploadAttempts opt env client task silentLogs maxRetries (attempt + 1)),
      transfer_call opt task #
        (if silentLogs then [] else [LogRetry (filePath task) attempt maxRetries]) @
        SetTimeout (1000 * attempt) #
        snd (uploadAttempts opt env client task silentLogs maxRetries (attempt + 1)))"
  using assms
  by (subst uploadAttempts.simps) (simp add: split_beta)

lemma uploadAttempts_failed_last:
  assumes "attempt_error (transfer_response opt client task maxRetries) = Some err"
  shows "uploadAttempts opt env client task silentLogs maxRetries maxRetries =
     (\<lparr> success = False, result_file = filePath task, name = task_name task,
        result_size = task_size task, retries = maxRetries - 1, error = Some err \<rparr>,
      transfer_call opt task # (if silentLogs then [] else [LogFailed (filePath task) err]))"
  using assms
  by (subst uploadAttempts.simps) simp

lemma uploadAttempts_succeeded:
  assumes "attempt \<le> maxRetries"
    and "attempt_error (transfer_response opt client task attempt) = None"
  shows "uploadAttempts opt env client task silentLogs maxRetries attempt =
     (\<lparr> success = True, result_file = filePath task, name = task_name task,
        result_size = task_size task, retries = attempt - 1, error = None \<rparr>,
      transfer_call opt task # cleanup_effects opt env task)"
  using assms
  by (subst uploadAttempts.simps) simp

lemma uploadAttempts_past:
  assumes "maxRetries < attempt"
  shows "uploadAttempts opt env client task silentLogs maxRetries attempt =
     (\<lparr> success = False, result_file = filePath task, name = task_name task,
        result_size = task_size task, retries = maxRetries,
        error = Some MaxRetriesExceeded \<rparr>, [])"
  using assms
  by (subst uploadAttempts.simps) simp

lemma all_fail_result:
  assumes "attempt \<le> R"
    and "\<forall>a. attempt \<le> a \<and> a \<le> R \<longrightarrow>
           attempt_error (transfer_response opt client task a) \<noteq> None"
  shows "fst (uploadAttempts opt env client task silentLogs R attempt) =
     \<lparr> success = False, result_file = filePath task, name = task_name task,
       result_size = task_size task, retries = R - 1,
       error = attempt_error (transfer_response opt client task R) \<rparr>"
  using assms
proof (induction "nat (R - attempt)" arbitrary: attempt)
  case 0
  then have eq: "attempt = R" by simp
  from 0 obtain err where "attempt_error (transfer_response opt client task R) = Some err"
    using eq by auto
  then show ?case unfolding eq by (simp add: uploadAttempts_failed_last)
next
  case (Suc n)
  then have lt: "attempt < R" by simp
  from Suc.prems obtain err where
    e: "attempt_error (transfer_response opt client task attempt) = Some err"
    by auto
  have "fst (uploadAttempts opt env client task silentLogs R (attempt + 1)) =
     \<lparr> success = False, result_file = filePath task, name = task_name task,
       result_size = task_size task, retries = R - 1,
       error = attempt_error (transfer_response opt client task R) \<rparr>"
    using Suc.hyps(2) Suc.prems lt by (intro Suc.hyps(1)) auto
  then show ?case by (simp add: uploadAttempts_failed_step [OF lt e])
qed

lemma all_fail_pacing:
  assumes "attempt \<le> R"
    and "\<forall>a. attempt \<le> a \<and> a \<le> R \<longrightarrow>
           attempt_error (transfer_response opt client task a) \<noteq> None"
  shows "pacing (snd (uploadAttempts opt env client task silentLogs R attempt)) =
     concat (map (\<lambda>a. [Attempt, Delay (1000 * a)]) [attempt..R - 1]) @ [Attempt]"
  using assms
proof (induction "nat (R - attempt)" arbitrary: attempt)
  case 0
  then have eq: "attempt = R" by simp
  from 0 obtain err where "attempt_error (transfer_response opt client task R) = Some err"
    using eq by auto
  then show ?case unfolding eq
    by (simp add: uploadAttempts_failed_last pacing_transfer_call)
next
  case (Suc n)
  then have lt: "attempt < R" by simp
  from Suc.prems obtain err where
    e: "attempt_error (transfer_response opt client task attempt) = Some err"
    by auto
  have ih: "pacing (snd (uploadAttempts opt env client task silentLogs R (attempt + 1))) =
     concat (map (\<lambda>a. [Attempt, Delay (1000 * a)]) [attempt + 1..R - 1]) @ [Attempt]"
    using Suc.hyps(2) Suc.prems lt by (intro Suc.hyps(1)) auto
  have up: "[attempt..R - 1] = attempt # [attempt + 1..R - 1]"
    using lt by (simp add: upto_rec1)
  show ?case
    by (simp add: uploadAttempts_failed_step [OF lt e] pacing_transfer_call pacing_append ih up)
qed

lemma all_fail_delays:
  assumes "attempt \<le> R"
    and "\<forall>a. attempt \<le> a \<and> a \<le> R \<longrightarrow>
           attempt_error (transfer_response opt client task a) \<noteq> None"
  shows "delays (snd (uploadAttempts opt env client task silentLogs R attempt)) =
     map (\<lambda>a. 1000 * a) [attempt..R - 1]"
  using assms
proof (induction "nat (R - attempt)" arbitrary: attempt)
  case 0
  then have eq: "attempt = R" by simp
  from 0 obtain err where "attempt_error (transfer_response opt client task R) = Some err"
    using eq by auto
  then show ?case unfolding eq
    by (simp add: uploadAttempts_failed_last delays_transfer_call)
next
  case (Suc n)
  then have lt: "attempt < R" by simp
  from Suc.prems obtain err where
    e: "attempt_error (transfer_response opt client task attempt) = Some err"
    by auto
  have ih: "delays (snd (uploadAttempts opt env client task silentLogs R (attempt + 1))) =
     map (\<lambda>a. 1000 * a) [attempt + 1..R - 1]"
    using Suc.hyps(2) Suc.prems lt by (intro Suc.hyps(1)) auto
  have up: "[attempt..R - 1] = attempt # [attempt + 1..R - 1]"
    using lt by (simp add: upto_rec1)
  show ?case
    by (simp add: uploadAttempts_failed_step [OF lt e] delays_transfer_call delays_append ih up)
qed

lemma backoff_increasing: "sorted_wrt (<) (map (\<lambda>a. 1000 * a) [i..j::int])"
  by (simp add: sorted_wrt_map sorted_wrt_iff_nth_less)


lemma all_fail_calls:
  assumes "attempt \<le> R"
    and "\<forall>a. attempt \<le> a \<and> a \<le> R \<longrightarrow>
           attempt_error (transfer_response opt client task a) \<noteq> None"
  shows "filter is_transfer_call (snd (uploadAttempts opt env client task silentLogs R attempt)) =
     replicate (nat (R - attempt + 1)) (transfer_call opt task)"
  using assms
proof (induction "nat (R - attempt)" arbitrary: attempt)
  case 0
  then have eq: "attempt = R" by simp
  from 0 obtain err where "attempt_error (transfer_response opt client task R) = Some err"
    using eq by auto
  then show ?case unfolding eq
    by (simp add: uploadAttempts_failed_last is_transfer_call_transfer_call)
next
  case (Suc n)
  then have lt: "attempt < R" by simp
  from Suc.prems obtain err where
    e: "attempt_error (transfer_response opt client task attempt) = Some err"
    by auto
  have ih: "filter is_transfer_call (snd (uploadAttempts opt env client task silentLogs R (attempt + 1))) =
     replicate (nat (R - (attempt + 1) + 1)) (transfer_call opt task)"
    using Suc.hyps(2) Suc.prems lt by (intro Suc.hyps(1)) auto
  have n: "nat (R - attempt + 1) = Suc (nat (R - (attempt + 1) + 1))"
    using lt by simp
  show ?case
    by (simp add: uploadAttempts_failed_step [OF lt e] is_transfer_call_transfer_call ih n)
qed

lemma cleanup_effects_no_call: "filter is_transfer_call (cleanup_effects opt env task) = []"
  by (simp add: cleanup_effects_def split: option.splits)

lemma uploadAttempts_calls:
  "set (filter is_transfer_call (snd (uploadAttempts opt env client task silentLogs maxRetries attempt)))
     \<subseteq> {transfer_call opt task}"
proof (induction opt env client task silentLogs maxRetries attempt rule: uploadAttempts.induct)
  case (1 opt env client task silentLogs maxRetries attempt)
  show ?case
  proof (cases "attempt \<le> maxRetries")
    case False
    then show ?thesis by (simp add: uploadAttempts_past)
  next
    case True
    show ?thesis
    proof (cases "attempt_error (transfer_response opt client task attempt)")
      case None
      then show ?thesis
        by (simp add: uploadAttempts_succeeded [OF True] cleanup_effects_no_call)
    next
      case (Some err)
      show ?thesis
      proof (cases "attempt = maxRetries")
        case True
        with Some show ?thesis by (simp add: uploadAttempts_failed_last)
      next
        case False
        with True have lt: "attempt < maxRetries" by simp
        from "1.IH" [OF True Some False]
        show ?thesis by (auto simp: uploadAttempts_failed_step [OF lt Some])
      qed
    qed
  qed
qed

lemma uploadAttempts_first_call:
  assumes "attempt \<le> maxRetries"
  shows "\<exists>rest. snd (uploadAttempts opt env client task silentLogs maxRetries attempt) =
           transfer_call opt task # rest"
proof (cases "attempt_error (transfer_response opt client task attempt)")
  case None
  then show ?thesis by (simp add: uploadAttempts_succeeded [OF assms])
next
  case (Some err)
  show ?thesis
  proof (cases "attempt = maxRetries")
    case True
    with Some show ?thesis by (simp add: uploadAttempts_failed_last)
  next
    case False
    with assms have lt: "attempt < maxRetries" by simp
    show ?thesis by (simp add: uploadAttempts_failed_step [OF lt Some])
  qed
qed

lemma uploadAttempts_calls_eq:
  assumes "attempt \<le> maxRetries"
  shows "set (filter is_transfer_call
            (snd (uploadAttempts opt env client task silentLogs maxRetries attempt))) =
         {transfer_call opt task}"
proof -
  obtain rest where
    "snd (uploadAttempts opt env client task silentLogs maxRetries attempt) =
       transfer_call opt task # rest"
    using uploadAttempts_first_call [OF assms] by blast
  then have "transfer_call opt task \<in> set (filter is_transfer_call
            (snd (uploadAttempts opt env client task silentLogs maxRetries attempt)))"
    by (simp add: is_transfer_call_transfer_call)
  with uploadAttempts_calls [of opt env client task silentLogs maxRetries attempt]
  show ?thesis by blast
qed

text \<open>The result of a transfer never depends on the file system.\<close>

lemma uploadAttempts_result_env:
  "fst (uploadAttempts opt env client task silentLogs maxRetries attempt) =
   fst (uploadAttempts opt env' client task silentLogs maxRetries attempt)"
proof (induction opt env client task silentLogs maxRetries attempt rule: uploadAttempts.induct)
  case (1 opt env client task silentLogs maxRetries attempt)
  show ?case
  proof (cases "attempt \<le> maxRetries")
    case False
    then show ?thesis by (simp add: uploadAttempts_past)
  next
    case True
    show ?thesis
    proof (cases "attempt_error (transfer_response opt client task attempt)")
      case None
      then show ?thesis by (simp add: uploadAttempts_succeeded [OF True])
    next
      case (Some err)
      show ?thesis
      proof (cases "attempt = maxRetries")
        case True
        with Some show ?thesis by (simp add: uploadAttempts_failed_last)
      next
        case False
        with True have lt: "attempt < maxRetries" by simp
        from "1.IH" [OF True Some False]
        show ?thesis by (simp add: uploadAttempts_failed_step [OF lt Some])
      qed
    qed
  qed
qed

lemma eventual_success:
  assumes "attempt \<le> a" and "a \<le> R"
    and "attempt_error (transfer_response opt client task a) = None"
  shows "success (fst (uploadAttempts opt env client task silentLogs R attempt)) \<and>
         error (fst (uploadAttempts opt env client task silentLogs R attempt)) = None \<and>
         (\<exists>pre. snd (uploadAttempts opt env client task silentLogs R attempt) =
                  pre @ cleanup_effects opt env task)"
  using assms
proof (induction "nat (a - attempt)" arbitrary: attempt)
  case 0
  then have eq: "attempt = a" by simp
  from 0 show ?case unfolding eq
    by (simp add: uploadAttempts_succeeded)
next
  case (Suc n)
  then have lt: "attempt < R" and le: "attempt \<le> R" by simp_all
  show ?case
  proof (cases "attempt_error (transfer_response opt client task attempt)")
    case None
    then show ?thesis
      by (simp add: uploadAttempts_succeeded [OF le])
  next
    case (Some err)
    have ih: "success (fst (uploadAttempts opt env client task silentLogs R (attempt + 1))) \<and>
         error (fst (uploadAttempts opt env client task silentLogs R (attempt + 1))) = None \<and>
         (\<exists>pre. snd (uploadAttempts opt env client task silentLogs R (attempt + 1)) =
                  pre @ cleanup_effects opt env task)"
      using Suc.hyps(2) Suc.prems by (intro Suc.hyps(1)) auto
    then obtain pre where
      pre: "snd (uploadAttempts opt env client task silentLogs R (attempt + 1)) =
              pre @ cleanup_effects opt env task"
      by blast
    have "snd (uploadAttempts opt env client task silentLogs R attempt) =
       (transfer_call opt task #
        (if silentLogs then [] else [LogRetry (filePath task) attempt R]) @
        SetTimeout (1000 * attempt) # pre) @ cleanup_effects opt env task"
      by (simp add: uploadAttempts_failed_step [OF lt Some] pre)
    then have "\<exists>pre. snd (uploadAttempts opt env client task silentLogs R attempt) =
                  pre @ cleanup_effects opt env task"
      by blast
    with ih show ?thesis by (simp add: uploadAttempts_failed_step [OF lt Some])
  qed
qed

section \<open>Claims about one transfer\<close>

text \<open>
  Claim C3.  When every attempt of a task fails (the call rejects, or resolves with a
  status other than 200) and \<open>maxRetries = R\<close> with \<open>R \<ge> 1\<close>, \<open>uploadFileWithRetry\<close>
  returns a failure that carries the error of attempt \<open>R\<close> and \<open>retries = R - 1\<close>; it
  makes exactly \<open>R\<close> attempts; after the failed attempt number \<open>a < R\<close> it waits
  \<open>1000 * a\<close> milliseconds, so the delays increase strictly; nothing is waited before the
  first attempt or after the last; with \<open>R = 1\<close> there is one attempt and no retry.
\<close>

theorem uploadFileWithRetry_always_failing:
  assumes "1 \<le> R"
    and "\<forall>a. 1 \<le> a \<and> a \<le> R \<longrightarrow>
           attempt_error (transfer_response opt client task a) \<noteq> None"
  shows "fst (uploadFileWithRetry opt env client task silentLogs R) =
           \<lparr> success = False, result_file = filePath task, name = task_name task,
             result_size = task_size task, retries = R - 1,
             error = attempt_error (transfer_response opt client task R) \<rparr> \<and>
         int (length (filter is_transfer_call
                (snd (uploadFileWithRetry opt env client task silentLogs R)))) = R \<and>
         pacing (snd (uploadFileWithRetry opt env client task silentLogs R)) =
           concat (map (\<lambda>a. [Attempt, Delay (1000 * a)]) [1..R - 1]) @ [Attempt] \<and>
         delays (snd (uploadFileWithRetry opt env client task silentLogs R)) =
           map (\<lambda>a. 1000 * a) [1..R - 1] \<and>
         sorted_wrt (<) (delays (snd (uploadFileWithRetry opt env client task silentLogs R))) \<and>
         (R = 1 \<longrightarrow> pacing (snd (uploadFileWithRetry opt env client task silentLogs R)) = [Attempt])"
proof -
  have d: "delays (snd (uploadFileWithRetry opt env client task silentLogs R)) =
           map (\<lambda>a. 1000 * a) [1..R - 1]"
    unfolding uploadFileWithRetry_def by (rule all_fail_delays [OF assms])
  have p: "pacing (snd (uploadFileWithRetry opt env client task silentLogs R)) =
           concat (map (\<lambda>a. [Attempt, Delay (1000 * a)]) [1..R - 1]) @ [Attempt]"
    unfolding uploadFileWithRetry_def by (rule all_fail_pacing [OF assms])
  have c: "int (length (filter is_transfer_call
                (snd (uploadFileWithRetry opt env client task silentLogs R)))) = R"
    unfolding uploadFileWithRetry_def using assms(1)
    by (simp add: all_fail_calls [OF assms])
  have r: "fst (uploadFileWithRetry opt env client task silentLogs R) =
           \<lparr> success = False, result_file = filePath task, name = task_name task,
             result_size = task_size task, retries = R - 1,
             error = attempt_error (transfer_response opt client task R) \<rparr>"
    unfolding uploadFileWithRetry_def by (rule all_fail_result [OF assms])
  have s: "sorted_wrt (<) (delays (snd (uploadFileWithRetry opt env client task silentLogs R)))"
    unfolding d by (rule backoff_increasing)
  have one: "R = 1 \<longrightarrow> pacing (snd (uploadFileWithRetry opt env client task silentLogs R)) = [Attempt]"
    unfolding p by simp
  from r c p d s one show ?thesis by (intro conjI)
qed

text \<open>The store that answers 503 to every call, with three attempts and with one.\<close>

lemma failing_client_fails:
  "\<forall>a. 1 \<le> a \<and> a \<le> R \<longrightarrow>
     attempt_error (transfer_response demo_opt failing_client demo_task a) \<noteq> None"
  by (simp add: attempt_error_def transfer_response_def failing_client_def)

theorem uploadFileWithRetry_always_failing_witness:
  "fst (uploadFileWithRetry demo_opt demo_env failing_client demo_task False 3) =
     \<lparr> success = False, result_file = ''dist/a.js'', name = ''test/__test/a.js'',
       result_size = 9, retries = 2, error = Some (UploadFailedWithStatus 503) \<rparr> \<and>
   length (filter is_transfer_call
     (snd (uploadFileWithRetry demo_opt demo_env failing_client demo_task False 3))) = 3 \<and>
   pacing (snd (uploadFileWithRetry demo_opt demo_env failing_client demo_task False 3)) =
     [Attempt, Delay 1000, Attempt, Delay 2000, Attempt] \<and>
   delays (snd (uploadFileWithRetry demo_opt demo_env failing_client demo_task False 3)) =
     [1000, 2000] \<and>
   pacing (snd (uploadFileWithRetry demo_opt demo_env failing_client demo_task False 1)) = [Attempt] \<and>
   retries (fst (uploadFileWithRetry demo_opt demo_env failing_client demo_task False 1)) = 0"
proof -
  have three: "(1::int) \<le> 3" and one: "(1::int) \<le> 1" by simp_all
  note t3 = uploadFileWithRetry_always_failing
    [OF three failing_client_fails, of demo_env False]
  note t1 = uploadFileWithRetry_always_failing
    [OF one failing_client_fails, of demo_env False]
  have e: "attempt_error (transfer_response demo_opt failing_client demo_task a) =
             Some (UploadFailedWithStatus 503)" for a
    by (simp add: attempt_error_def transfer_response_def failing_client_def)
  have u: "[1..2] = [1, 2::int]" by (simp add: upto_rec1)
  have a: "fst (uploadFileWithRetry demo_opt demo_env failing_client demo_task False 3) =
     \<lparr> success = False, result_file = ''dist/a.js'', name = ''test/__test/a.js'',
       result_size = 9, retries = 2, error = Some (UploadFailedWithStatus 503) \<rparr>"
    using t3 [THEN conjunct1] unfolding e by (simp add: demo_task_def)
  have b: "length (filter is_transfer_call
     (snd (uploadFileWithRetry demo_opt demo_env failing_client demo_task False 3))) = 3"
    using t3 [THEN conjunct2, THEN conjunct1] by simp
  have c: "pacing (snd (uploadFileWithRetry demo_opt demo_env failing_client demo_task False 3)) =
     [Attempt, Delay 1000, Attempt, Delay 2000, Attempt]"
    using t3 [THEN conjunct2, THEN conjunct2, THEN conjunct1] by (simp add: u)
  have d: "delays (snd (uploadFileWithRetry demo_opt demo_env failing_client demo_task False 3)) =
     [1000, 2000]"
    using t3 [THEN conjunct2, THEN conjunct2, THEN conjunct2, THEN conjunct1] by (simp add: u)
  have f: "pacing (snd (uploadFileWithRetry demo_opt demo_env failing_client demo_task False 1)) = [Attempt]"
    using t1 [THEN conjunct2, THEN conjunct2, THEN conjunct1] by simp
  have g: "retries (fst (uploadFileWithRetry demo_opt demo_env failing_client demo_task False 1)) = 0"
    using t1 [THEN conjunct1] unfolding e by simp
  from a b c d f g show ?thesis by (intro conjI)
qed

text \<open>
  Claim C4.  Whether a task goes through \<open>multipartUpload\<close> or \<open>put\<close> depends on
  nothing but its size and the threshold: with a size at or above the threshold every
  attempt is a \<open>multipartUpload\<close> with \<open>parallel = min(concurrency, 4)\<close>, below the
  threshold every attempt is a \<open>put\<close>; a size equal to the threshold is chunked, a size
  one below it is not.  (\<open>concurrency \<ge> 1\<close> and \<open>retryTimes \<ge> 1\<close> are what
  \<open>validateOptions\<close> demands before any upload starts.)
\<close>

theorem transfer_size_decision:
  assumes "1 \<le> concurrency opt" and "1 \<le> maxRetries"
  shows "shouldUseMultipart opt task = (multipartThreshold opt \<le> int (task_size task)) \<and>
         (multipartThreshold opt \<le> int (task_size task) \<longrightarrow>
            set (filter is_transfer_call
                  (snd (uploadFileWithRetry opt env client task silentLogs maxRetries))) =
              {MultipartCall (task_name task) (filePath task) 600000 (1024 * 1024)
                 (min (concurrency opt) 4) (request_headers opt)}) \<and>
         (int (task_size task) < multipartThreshold opt \<longrightarrow>
            set (filter is_transfer_call
                  (snd (uploadFileWithRetry opt env client task silentLogs maxRetries))) =
              {PutCall (task_name task) (filePath task) 600000 (request_headers opt)}) \<and>
         (int (task_size task) = multipartThreshold opt \<longrightarrow> shouldUseMultipart opt task) \<and>
         (int (task_size task) = multipartThreshold opt - 1 \<longrightarrow> \<not> shouldUseMultipart opt task)"
proof -
  have calls: "set (filter is_transfer_call
                  (snd (uploadFileWithRetry opt env client task silentLogs maxRetries))) =
               {transfer_call opt task}"
    unfolding uploadFileWithRetry_def using assms(2) by (rule uploadAttempts_calls_eq)
  have par: "max 1 (min (concurrency opt) 4) = min (concurrency opt) 4"
    using assms(1) by simp
  have big: "multipartThreshold opt \<le> int (task_size task) \<longrightarrow>
      transfer_call opt task =
        MultipartCall (task_name task) (filePath task) 600000 (1024 * 1024)
          (min (concurrency opt) 4) (request_headers opt)"
    by (simp add: transfer_call_def shouldUseMultipart_def par)
  have small: "int (task_size task) < multipartThreshold opt \<longrightarrow>
      transfer_call opt task =
        PutCall (task_name task) (filePath task) 600000 (request_headers opt)"
    by (simp add: transfer_call_def shouldUseMultipart_def)
  show ?thesis
    using big small unfolding calls by (simp add: shouldUseMultipart_def)
qed

text \<open>A threshold of 10 bytes, with a file of 10 bytes and one of 9.\<close>

theorem transfer_size_decision_witness:
  "set (filter is_transfer_call
     (snd (uploadFileWithRetry demo_opt demo_env accepting_client
        \<lparr> filePath = ''dist/m.bin'', task_name = ''m.bin'', task_size = 10 \<rparr> False 3))) =
     {MultipartCall ''m.bin'' ''dist/m.bin'' 600000 (1024 * 1024) 2 (request_headers demo_opt)} \<and>
   set (filter is_transfer_call
     (snd (uploadFileWithRetry demo_opt demo_env accepting_client
        \<lparr> filePath = ''dist/s.bin'', task_name = ''s.bin'', task_size = 9 \<rparr> False 3))) =
     {PutCall ''s.bin'' ''dist/s.bin'' 600000 (request_headers demo_opt)} \<and>
   shouldUseMultipart demo_opt \<lparr> filePath = ''dist/m.bin'', task_name = ''m.bin'', task_size = 10 \<rparr> \<and>
   \<not> shouldUseMultipart demo_opt \<lparr> filePath = ''dist/s.bin'', task_name = ''s.bin'', task_size = 9 \<rparr>"
proof -
  have c: "1 \<le> concurrency demo_opt" and r: "(1::int) \<le> 3"
    by (simp_all add: demo_opt_def)
  have th: "multipartThreshold demo_opt = 10" and co: "concurrency demo_opt = 2"
    by (simp_all add: demo_opt_def)
  note big = transfer_size_decision [OF c r, of
      "\<lparr> filePath = ''dist/m.bin'', task_name = ''m.bin'', task_size = 10 \<rparr>"
      demo_env accepting_client False]
  note small = transfer_size_decision [OF c r, of
      "\<lparr> filePath = ''dist/s.bin'', task_name = ''s.bin'', task_size = 9 \<rparr>"
      demo_env accepting_client False]
  have 1: "set (filter is_transfer_call
     (snd (uploadFileWithRetry demo_opt demo_env accepting_client
        \<lparr> filePath = ''dist/m.bin'', task_name = ''m.bin'', task_size = 10 \<rparr> False 3))) =
     {MultipartCall ''m.bin'' ''dist/m.bin'' 600000 (1024 * 1024) 2 (request_headers demo_opt)}"
    using big [THEN conjunct2, THEN conjunct1] by (simp add: th co)
  have 2: "set (filter is_transfer_call
     (snd (uploadFileWithRetry demo_opt demo_env accepting_client
        \<lparr> filePath = ''dist/s.bin'', task_name = ''s.bin'', task_size = 9 \<rparr> False 3))) =
     {PutCall ''s.bin'' ''dist/s.bin'' 600000 (request_headers demo_opt)}"
    using small [THEN conjunct2, THEN conjunct2, THEN conjunct1] by (simp add: th co)
  have 3: "shouldUseMultipart demo_opt \<lparr> filePath = ''dist/m.bin'', task_name = ''m.bin'', task_size = 10 \<rparr>"
    using big [THEN conjunct2, THEN conjunct2, THEN conjunct2, THEN conjunct1] by (simp add: th)
  have 4: "\<not> shouldUseMultipart demo_opt \<lparr> filePath = ''dist/s.bin'', task_name = ''s.bin'', task_size = 9 \<rparr>"
    using small [THEN conjunct2, THEN conjunct2, THEN conjunct2, THEN conjunct2] by (simp add: th)
  from 1 2 3 4 show ?thesis by (intro conjI)
qed

section \<open>JavaScript addition of byte totals\<close>

lemma bit_length_le: "n < 2 ^ k \<Longrightarrow> bit_length n \<le> k"
proof (induction k arbitrary: n)
  case 0
  then show ?case by (simp add: bit_length.simps)
next
  case (Suc k)
  then have "n div 2 < 2 ^ k" by simp
  then have "bit_length (n div 2) \<le> k" by (rule Suc.IH)
  then show ?case by (subst bit_length.simps) simp
qed

lemma bit_length_gt: "2 ^ k \<le> n \<Longrightarrow> k < bit_length n"
proof (induction k arbitrary: n)
  case 0
  then show ?case by (subst bit_length.simps) simp
next
  case (Suc k)
  then have "2 ^ k \<le> n div 2" by simp
  then have "k < bit_length (n div 2)" by (rule Suc.IH)
  moreover have "(0::nat) < 2 ^ Suc k" by simp
  with Suc.prems have "n \<noteq> 0" by linarith
  ultimately show ?case by (subst bit_length.simps) simp
qed

lemma less_bit_length: "n < 2 ^ bit_length n"
proof (rule ccontr)
  assume "\<not> n < 2 ^ bit_length n"
  then have "2 ^ bit_length n \<le> n" by simp
  then have "bit_length n < bit_length n" by (rule bit_length_gt)
  then show False by simp
qed

lemma bit_length_mono: "m \<le> n \<Longrightarrow> bit_length m \<le> bit_length n"
proof -
  assume "m \<le> n"
  then have "m < 2 ^ bit_length n" using less_bit_length [of n] by simp
  then show ?thesis by (rule bit_length_le)
qed

lemma bit_length_lower: "0 < n \<Longrightarrow> 2 ^ (bit_length n - 1) \<le> n"
proof (rule ccontr)
  assume n: "0 < n" and "\<not> 2 ^ (bit_length n - 1) \<le> n"
  then have "n < 2 ^ (bit_length n - 1)" by simp
  then have "bit_length n \<le> bit_length n - 1" by (rule bit_length_le)
  moreover from n have "0 < bit_length n" using bit_length_gt [of 0 n] by simp
  ultimately show False by simp
qed

text \<open>The test for \<open>Infinity\<close> in \<open>to_number\<close> is the test against \<open>2 ^ 1024\<close>.\<close>

lemma overflow_iff: "(1024 < bit_length n) = (2 ^ 1024 \<le> n)"
proof
  assume "1024 < bit_length n"
  show "2 ^ 1024 \<le> n"
  proof (rule ccontr)
    assume "\<not> 2 ^ 1024 \<le> n"
    then have "n < 2 ^ 1024" by simp
    then have "bit_length n \<le> 1024" by (rule bit_length_le)
    with \<open>1024 < bit_length n\<close> show False by simp
  qed
next
  assume "2 ^ 1024 \<le> n"
  then show "1024 < bit_length n" by (rule bit_length_gt)
qed

lemma ulp_pos [simp]: "0 < ulp n"
  by (simp add: ulp_def)

lemma ulp_small: "n < 2 ^ 53 \<Longrightarrow> ulp n = 1"
  using bit_length_le [of n 53] by (simp add: ulp_def)

lemma floor_multiple:
  assumes "u dvd c" and "c \<le> n" and "0 < (u::nat)"
  shows "c \<le> (n div u) * u"
proof -
  from assms(1) obtain k where c: "c = u * k" by (auto simp: dvd_def)
  with assms(2,3) have "k \<le> n div u"
    by (metis div_le_mono nonzero_mult_div_cancel_left less_numeral_extra(3))
  then show ?thesis by (simp add: c mult.commute)
qed

lemma round_floor: "(n div ulp n) * ulp n \<le> round_to_double n"
  by (simp add: round_to_double_def)

lemma ulp_dvd_round: "ulp n dvd round_to_double n"
  by (simp add: round_to_double_def)

lemma round_exact: "ulp n dvd n \<Longrightarrow> round_to_double n = n"
  by (auto simp: round_to_double_def dvd_eq_mod_eq_0)

text \<open>Whole numbers up to \<open>2 ^ 53\<close> are doubles.\<close>

lemma round_small: "n \<le> 2 ^ 53 \<Longrightarrow> round_to_double n = n"
proof (cases "n = 2 ^ 53")
  case True
  have "bit_length (2 ^ 53) \<le> 54" by (rule bit_length_le) simp
  moreover have "53 < bit_length (2 ^ 53)" by (rule bit_length_gt) simp
  ultimately have "bit_length (2 ^ 53) = 54" by simp
  then have "ulp (2 ^ 53) = 2" by (simp add: ulp_def)
  then have "ulp (2 ^ 53) dvd 2 ^ 53" by simp
  then show ?thesis unfolding True by (rule round_exact)
next
  case False
  assume "n \<le> 2 ^ 53"
  with False have "n < 2 ^ 53" by simp
  then show ?thesis by (simp add: round_exact ulp_small)
qed

lemma quotient_bound: "n div ulp n < 2 ^ 53"
proof -
  have "bit_length n \<le> 53 + (bit_length n - 53)" by simp
  then have "(2::nat) ^ bit_length n \<le> 2 ^ (53 + (bit_length n - 53))"
    by (rule power_increasing) simp
  with less_bit_length [of n] have "n < 2 ^ 53 * ulp n"
    by (simp add: ulp_def power_add)
  then show ?thesis
    by (simp add: less_mult_imp_div_less)
qed

text \<open>A rounded value is a double: rounding it again changes nothing.\<close>

lemma round_is_double: "ulp (round_to_double n) dvd round_to_double n"
proof -
  define e where "e = bit_length n - 53"
  have u: "ulp n = 2 ^ e" by (simp add: ulp_def e_def)
  obtain k where m: "round_to_double n = k * 2 ^ e" and k: "k \<le> 2 ^ 53"
  proof (cases "ulp n < 2 * (n mod ulp n) \<or> (2 * (n mod ulp n) = ulp n \<and> odd (n div ulp n))")
    case True
    then have "round_to_double n = (n div ulp n + 1) * 2 ^ e"
      by (simp add: round_to_double_def u)
    moreover have "n div ulp n + 1 \<le> 2 ^ 53"
      using quotient_bound [of n] by simp
    ultimately show ?thesis by (rule that)
  next
    case False
    then have "round_to_double n = (n div ulp n) * 2 ^ e"
      by (simp add: round_to_double_def u)
    moreover have "n div ulp n \<le> 2 ^ 53"
      using quotient_bound [of n] by simp
    ultimately show ?thesis by (rule that)
  qed
  show ?thesis
  proof (cases "k = 2 ^ 53")
    case True
    then have p: "round_to_double n = 2 ^ (53 + e)"
      by (simp add: m power_add)
    have "round_to_double n < 2 ^ (54 + e)"
      unfolding p by (rule power_strict_increasing) simp_all
    then have "bit_length (round_to_double n) \<le> 54 + e" by (rule bit_length_le)
    then have "bit_length (round_to_double n) - 53 \<le> 53 + e" by simp
    then have "(2::nat) ^ (bit_length (round_to_double n) - 53) dvd 2 ^ (53 + e)"
      by (rule le_imp_power_dvd)
    then show ?thesis by (simp add: ulp_def p)
  next
    case False
    with k have "k < 2 ^ 53" by simp
    then have "k * 2 ^ e < 2 ^ 53 * 2 ^ e" by simp
    then have "round_to_double n < 2 ^ (53 + e)" by (simp add: m power_add)
    then have "bit_length (round_to_double n) \<le> 53 + e" by (rule bit_length_le)
    then have "bit_length (round_to_double n) - 53 \<le> e" by simp
    then have "(2::nat) ^ (bit_length (round_to_double n) - 53) dvd 2 ^ e"
      by (rule le_imp_power_dvd)
    then show ?thesis by (simp add: ulp_def m)
  qed
qed

lemma round_idem: "round_to_double (round_to_double n) = round_to_double n"
  by (rule round_exact) (rule round_is_double)

text \<open>Rounding a sum never goes below a summand that is a double.\<close>

lemma round_ge_double:
  assumes "round_to_double a = a" and "a \<le> n"
  shows "a \<le> round_to_double n"
proof -
  have da: "ulp a dvd a" using ulp_dvd_round [of a] assms(1) by simp
  have "a \<le> (n div ulp n) * ulp n"
  proof (cases "bit_length a - 53 = bit_length n - 53")
    case True
    then have "ulp a = ulp n" by (simp add: ulp_def)
    with da have "ulp n dvd a" by simp
    then show ?thesis using assms(2) by (rule floor_multiple) simp
  next
    case False
    have "bit_length a \<le> bit_length n" using assms(2) by (rule bit_length_mono)
    with False have lt: "bit_length a < bit_length n" and big: "53 < bit_length n"
      by auto
    from big have "0 < n" using bit_length_le [of n 0] by (cases "n = 0") auto
    then have low: "2 ^ (bit_length n - 1) \<le> n" by (rule bit_length_lower)
    have "bit_length n - 53 \<le> bit_length n - 1" by simp
    then have "ulp n dvd 2 ^ (bit_length n - 1)"
      unfolding ulp_def by (rule le_imp_power_dvd)
    then have fl: "2 ^ (bit_length n - 1) \<le> (n div ulp n) * ulp n"
      using low by (rule floor_multiple) simp
    have "bit_length a \<le> bit_length n - 1" using lt by simp
    then have "(2::nat) ^ bit_length a \<le> 2 ^ (bit_length n - 1)"
      by (rule power_increasing) simp
    with less_bit_length [of a] fl show ?thesis by linarith
  qed
  with round_floor [of n] show ?thesis by simp
qed

lemma js_add_is_double: "is_double (js_add x b)"
  by (cases x) (simp_all add: to_number_def round_idem)

lemma js_add_increases: "is_double x \<Longrightarrow> number_le x (js_add x b)"
  by (cases x) (simp_all add: to_number_def round_ge_double)

lemma js_add_exact: "a + b \<le> 2 ^ 53 \<Longrightarrow> js_add (Finite a) b = Finite (a + b)"
proof -
  assume le: "a + b \<le> 2 ^ 53"
  then have r: "round_to_double (a + b) = a + b" by (rule round_small)
  have "(2::nat) ^ 53 < 2 ^ 54" by (rule power_strict_increasing) simp_all
  with le have "a + b < 2 ^ 54" by linarith
  then have "bit_length (a + b) \<le> 54" by (rule bit_length_le)
  then show ?thesis by (simp add: to_number_def r)
qed

lemma number_le_refl: "number_le x x"
  by (cases x) simp_all

lemma number_le_trans: "number_le x y \<Longrightarrow> number_le y z \<Longrightarrow> number_le x z"
  by (cases x; cases y; cases z) simp_all

text \<open>
  Adding 1 to \<open>2 ^ 53\<close>, or \<open>2 ^ 53\<close> to 1: the exact sum lies half way between two
  doubles and goes to the even one.
\<close>

lemma round_tie: "round_to_double 9007199254740993 = 9007199254740992"
proof -
  have "bit_length 9007199254740993 \<le> 54" by (rule bit_length_le) simp
  moreover have "53 < bit_length 9007199254740993" by (rule bit_length_gt) simp
  ultimately have "bit_length 9007199254740993 = 54" by simp
  then have "ulp 9007199254740993 = 2" by (simp add: ulp_def)
  then show ?thesis by (simp add: round_to_double_def)
qed

lemma to_number_tie: "to_number 9007199254740993 = Finite 9007199254740992"
proof -
  have "bit_length 9007199254740992 \<le> 54" by (rule bit_length_le) simp
  then show ?thesis by (simp add: to_number_def round_tie)
qed

section \<open>The steps of the worker pool\<close>

lemma worker_claim_fields [simp]:
  "results (worker_claim tasks w s) = results s"
  "completed (worker_claim tasks w s) = completed s"
  "failed (worker_claim tasks w s) = failed s"
  "uploadedBytes (worker_claim tasks w s) = uploadedBytes s"
  "retries_count (worker_claim tasks w s) = retries_count s"
  "currentIndex (worker_claim tasks w s) = currentIndex s + 1"
  "awaiting (worker_claim tasks w s) =
     (if length tasks \<le> currentIndex s then awaiting s else awaiting s @ [(w, currentIndex s)])"
  "timeline (worker_claim tasks w s) =
     timeline s @ [if length tasks \<le> currentIndex s then WorkerReturned w
                   else TransferBegun w (currentIndex s)]"
  by (simp_all add: worker_claim_def updateProgress_def)

lemma worker_claim_progress:
  "progress_log (worker_claim tasks w s) =
     (if length tasks \<le> currentIndex s then progress_log s
      else progress_log s @
        [\<lparr> p_completed = completed s, p_failed = failed s,
           p_uploadedBytes = uploadedBytes s, p_retries = retries_count s,
           p_active = set_add (task_name (tasks ! currentIndex s)) (activeFiles s) \<rparr>])"
  by (simp add: worker_claim_def updateProgress_def)

lemma spawn_worker_fields [simp]:
  "results (spawn_worker tasks w s) = results s"
  "completed (spawn_worker tasks w s) = completed s"
  "failed (spawn_worker tasks w s) = failed s"
  "uploadedBytes (spawn_worker tasks w s) = uploadedBytes s"
  "retries_count (spawn_worker tasks w s) = retries_count s"
  "currentIndex (spawn_worker tasks w s) = currentIndex s + 1"
  "awaiting (spawn_worker tasks w s) =
     (if length tasks \<le> currentIndex s then awaiting s else awaiting s @ [(w, currentIndex s)])"
  "timeline (spawn_worker tasks w s) =
     timeline s @ [WorkerSpawned w,
                   if length tasks \<le> currentIndex s then WorkerReturned w
                   else TransferBegun w (currentIndex s)]"
  by (simp_all add: spawn_worker_def)

lemma spawn_worker_progress:
  "progress_log (spawn_worker tasks w s) =
     (if length tasks \<le> currentIndex s then progress_log s
      else progress_log s @
        [\<lparr> p_completed = completed s, p_failed = failed s,
           p_uploadedBytes = uploadedBytes s, p_retries = retries_count s,
           p_active = set_add (task_name (tasks ! currentIndex s)) (activeFiles s) \<rparr>])"
  by (simp add: spawn_worker_def worker_claim_progress)

lemma settle_fields:
  assumes "awaiting s ! k = (w, i)"
  shows
  "results (settle opt env client tasks k s) =
     results s @ [fst (transfer_of opt env client tasks i)]"
  "completed (settle opt env client tasks k s) = completed s + 1"
  "uploadedBytes (settle opt env client tasks k s) =
     (if success (fst (transfer_of opt env client tasks i))
      then js_add (uploadedBytes s) (result_size (fst (transfer_of opt env client tasks i)))
      else uploadedBytes s)"
  "currentIndex (settle opt env client tasks k s) = currentIndex s + 1"
  "awaiting (settle opt env client tasks k s) =
     take k (awaiting s) @ drop (Suc k) (awaiting s) @
       (if length tasks \<le> currentIndex s then [] else [(w, currentIndex s)])"
  "timeline (settle opt env client tasks k s) =
     timeline s @
       [TransferSettled w i (snd (transfer_of opt env client tasks i)),
        if length tasks \<le> currentIndex s then WorkerReturned w
        else TransferBegun w (currentIndex s)]"
  using assms
  by (simp_all add: settle_def worker_resume_def transfer_of_def updateProgress_def
        record_result_def split: prod.splits)

lemma drain_invariant:
  assumes "\<And>k s. P s \<Longrightarrow> k < length (awaiting s) \<Longrightarrow> P (settle opt env client tasks k s)"
    and "P s"
  shows "P (drain opt env client tasks sched s)"
  using assms
proof (induction opt env client tasks sched s rule: drain.induct)
  case (1 opt env client tasks sched s)
  note step = "1.prems"(1) and Ps = "1.prems"(2)
  show ?case
  proof (cases "awaiting s = []")
    case True
    with Ps show ?thesis by (subst drain.simps) simp
  next
    case False
    then have k: "next_choice sched mod length (awaiting s) < length (awaiting s)" by simp
    have "P (drain opt env client tasks (tl sched)
             (settle opt env client tasks (next_choice sched mod length (awaiting s)) s))"
    proof (rule "1.IH")
      show "awaiting s \<noteq> []" by (rule False)
      show "\<And>k s. P s \<Longrightarrow> k < length (awaiting s) \<Longrightarrow> P (settle opt env client tasks k s)"
        by (rule step)
      show "P (settle opt env client tasks (next_choice sched mod length (awaiting s)) s)"
        by (rule step [OF Ps k])
    qed
    with False show ?thesis by (subst drain.simps) simp
  qed
qed

lemma drain_done: "awaiting (drain opt env client tasks sched s) = []"
proof (induction opt env client tasks sched s rule: drain.induct)
  case (1 opt env client tasks sched s)
  then show ?case by (subst drain.simps) simp
qed

lemma spawn_invariant:
  assumes step: "\<And>w s. P s \<Longrightarrow> P (spawn_worker tasks w s)"
  shows "P s \<Longrightarrow> P (fold (spawn_worker tasks) ws s)"
  by (induction ws arbitrary: s) (simp_all add: step)


lemma settle_progress:
  assumes "awaiting s ! k = (w, i)"
  shows
  "map p_completed (progress_log (settle opt env client tasks k s)) =
     map p_completed (progress_log s) @
       (completed s + 1) # (if length tasks \<le> currentIndex s then [] else [completed s + 1])"
  "map p_uploadedBytes (progress_log (settle opt env client tasks k s)) =
     map p_uploadedBytes (progress_log s) @
       uploadedBytes (settle opt env client tasks k s) #
         (if length tasks \<le> currentIndex s then []
          else [uploadedBytes (settle opt env client tasks k s)])"
  using assms
  by (simp_all add: settle_def worker_resume_def worker_claim_def updateProgress_def
        record_result_def split: prod.splits)

lemma sort_candidates_fst:
  "fst (sort_candidates cands (ts, s)) = ts @ candidate_tasks cands"
  by (induction cands "(ts, s)" arbitrary: ts s rule: sort_candidates.induct) simp_all

lemma sort_candidates_snd:
  "results (snd (sort_candidates cands (ts, s))) = results s @ stat_failures cands"
  "completed (snd (sort_candidates cands (ts, s))) = completed s + length (stat_failures cands)"
  "failed (snd (sort_candidates cands (ts, s))) = failed s + length (stat_failures cands)"
  "uploadedBytes (snd (sort_candidates cands (ts, s))) = uploadedBytes s"
  "retries_count (snd (sort_candidates cands (ts, s))) = retries_count s"
  "currentIndex (snd (sort_candidates cands (ts, s))) = currentIndex s"
  "activeFiles (snd (sort_candidates cands (ts, s))) = activeFiles s"
  "awaiting (snd (sort_candidates cands (ts, s))) = awaiting s"
  "progress_log (snd (sort_candidates cands (ts, s))) = progress_log s"
  "timeline (snd (sort_candidates cands (ts, s))) = timeline s"
  by (induction cands "(ts, s)" arbitrary: ts s rule: sort_candidates.induct)
     (simp_all add: stat_failure_result_def)

lemma batch_tasks_eq:
  "batch_tasks opt env files = candidate_tasks (map (taskCandidate opt env) files)"
  by (simp add: batch_tasks_def sort_candidates_fst)

lemma start_state_fields [simp]:
  "results (start_state opt env files stat_sched) =
     stat_failures (map (taskCandidate opt env) files)"
  "completed (start_state opt env files stat_sched) =
     length (stat_failures (map (taskCandidate opt env) files))"
  "failed (start_state opt env files stat_sched) =
     length (stat_failures (map (taskCandidate opt env) files))"
  "uploadedBytes (start_state opt env files stat_sched) = Finite 0"
  "retries_count (start_state opt env files stat_sched) = 0"
  "currentIndex (start_state opt env files stat_sched) = 0"
  "awaiting (start_state opt env files stat_sched) = []"
  "timeline (start_state opt env files stat_sched) = stat_events opt env files stat_sched"
  "map p_completed (progress_log (start_state opt env files stat_sched)) =
     [length (stat_failures (map (taskCandidate opt env) files))]"
  "map p_uploadedBytes (progress_log (start_state opt env files stat_sched)) = [Finite 0]"
  by (simp_all add: start_state_def updateProgress_def sort_candidates_snd initial_state_def)

lemma run_batch_eq:
  "run_batch opt env client files windowSize stat_sched sched =
     drain opt env client (batch_tasks opt env files) sched
       (fold (spawn_worker (batch_tasks opt env files))
          [0..<safeWindowSize windowSize (batch_tasks opt env files)]
          (start_state opt env files stat_sched))"
proof -
  obtain ts s where p: "sort_candidates (map (taskCandidate opt env) files)
       ([], initial_state (stat_events opt env files stat_sched)) = (ts, s)"
    by (cases "sort_candidates (map (taskCandidate opt env) files)
       ([], initial_state (stat_events opt env files stat_sched))")
  have "ts = batch_tasks opt env files"
    using sort_candidates_fst [of "map (taskCandidate opt env) files" "[]"
        "initial_state (stat_events opt env files stat_sched)"] p
    by (simp add: batch_tasks_eq)
  then show ?thesis
    by (simp add: run_batch_def start_state_def p)
qed

lemma run_batch_invariant:
  assumes "P (start_state opt env files stat_sched)"
    and "\<And>w s. P s \<Longrightarrow> P (spawn_worker (batch_tasks opt env files) w s)"
    and "\<And>k s. P s \<Longrightarrow> k < length (awaiting s) \<Longrightarrow>
           P (settle opt env client (batch_tasks opt env files) k s)"
  shows "P (run_batch opt env client files windowSize stat_sched sched)"
  unfolding run_batch_eq
  by (rule drain_invariant [where P = P, OF assms(3)], assumption+,
      rule spawn_invariant [where P = P, OF assms(2)], assumption, rule assms(1))

lemma safeWindowSize_pos: "0 < safeWindowSize windowSize tasks"
  by (simp add: safeWindowSize_def)


section \<open>Reading the timeline\<close>

lemma settled_indices_append:
  "settled_indices (xs @ ys) = settled_indices xs @ settled_indices ys"
  by (induction xs rule: settled_indices.induct) simp_all

lemma begun_indices_append:
  "begun_indices (xs @ ys) = begun_indices xs @ begun_indices ys"
  by (induction xs rule: begun_indices.induct) simp_all

lemma settled_effects_append:
  "settled_effects (xs @ ys) = settled_effects xs @ settled_effects ys"
  by (induction xs rule: settled_effects.induct) simp_all

lemma spawned_workers_append:
  "spawned_workers (xs @ ys) = spawned_workers xs @ spawned_workers ys"
  by (induction xs rule: spawned_workers.induct) simp_all

lemma stat_events_no_transfer:
  "settled_indices (stat_events opt env files stat_sched) = []"
  "begun_indices (stat_events opt env files stat_sched) = []"
  "settled_effects (stat_events opt env files stat_sched) = []"
  "spawned_workers (stat_events opt env files stat_sched) = []"
proof -
  have a: "settled_indices (map StatIssued xs) = [] \<and> begun_indices (map StatIssued xs) = [] \<and>
           settled_effects (map StatIssued xs) = [] \<and> spawned_workers (map StatIssued xs) = []"
    for xs by (induction xs) simp_all
  have b: "settled_indices (map StatSettled xs) = [] \<and> begun_indices (map StatSettled xs) = [] \<and>
           settled_effects (map StatSettled xs) = [] \<and> spawned_workers (map StatSettled xs) = []"
    for xs by (induction xs) simp_all
  show "settled_indices (stat_events opt env files stat_sched) = []"
    "begun_indices (stat_events opt env files stat_sched) = []"
    "settled_effects (stat_events opt env files stat_sched) = []"
    "spawned_workers (stat_events opt env files stat_sched) = []"
    by (simp_all only: stat_events_def settled_indices_append begun_indices_append
          settled_effects_append spawned_workers_append a b append_Nil)
qed

section \<open>Invariants of the batch run\<close>

text \<open>The results are the stat failures followed by the transfers in the order they settled.\<close>

lemma run_batch_results:
  "results (run_batch opt env client files windowSize stat_sched sched) =
     stat_failures (map (taskCandidate opt env) files) @
     map (\<lambda>i. fst (transfer_of opt env client (batch_tasks opt env files) i))
       (settled_indices (timeline (run_batch opt env client files windowSize stat_sched sched)))"
proof (rule run_batch_invariant)
  show "results (start_state opt env files stat_sched) =
     stat_failures (map (taskCandidate opt env) files) @
     map (\<lambda>i. fst (transfer_of opt env client (batch_tasks opt env files) i))
       (settled_indices (timeline (start_state opt env files stat_sched)))"
    by (simp add: stat_events_no_transfer)
next
  fix w and s :: batch_state
  assume "results s =
     stat_failures (map (taskCandidate opt env) files) @
     map (\<lambda>i. fst (transfer_of opt env client (batch_tasks opt env files) i))
       (settled_indices (timeline s))"
  then show "results (spawn_worker (batch_tasks opt env files) w s) =
     stat_failures (map (taskCandidate opt env) files) @
     map (\<lambda>i. fst (transfer_of opt env client (batch_tasks opt env files) i))
       (settled_indices (timeline (spawn_worker (batch_tasks opt env files) w s)))"
    by (simp add: settled_indices_append)
next
  fix k and s :: batch_state
  assume inv: "results s =
     stat_failures (map (taskCandidate opt env) files) @
     map (\<lambda>i. fst (transfer_of opt env client (batch_tasks opt env files) i))
       (settled_indices (timeline s))"
  obtain w i where wi: "awaiting s ! k = (w, i)" by (cases "awaiting s ! k")
  show "results (settle opt env client (batch_tasks opt env files) k s) =
     stat_failures (map (taskCandidate opt env) files) @
     map (\<lambda>i. fst (transfer_of opt env client (batch_tasks opt env files) i))
       (settled_indices (timeline (settle opt env client (batch_tasks opt env files) k s)))"
    by (simp add: settle_fields [OF wi] settled_indices_append inv)
qed

text \<open>The transfers begun are those of the indices claimed so far, in order.\<close>

lemma run_batch_begun_inv:
  "begun_indices (timeline (run_batch opt env client files windowSize stat_sched sched)) =
     [0..<min (currentIndex (run_batch opt env client files windowSize stat_sched sched))
            (length (batch_tasks opt env files))]"
proof (rule run_batch_invariant)
  show "begun_indices (timeline (start_state opt env files stat_sched)) =
     [0..<min (currentIndex (start_state opt env files stat_sched))
            (length (batch_tasks opt env files))]"
    by (simp add: stat_events_no_transfer)
next
  fix w and s :: batch_state
  assume inv: "begun_indices (timeline s) =
     [0..<min (currentIndex s) (length (batch_tasks opt env files))]"
  show "begun_indices (timeline (spawn_worker (batch_tasks opt env files) w s)) =
     [0..<min (currentIndex (spawn_worker (batch_tasks opt env files) w s))
            (length (batch_tasks opt env files))]"
  proof (cases "length (batch_tasks opt env files) \<le> currentIndex s")
    case True
    with inv show ?thesis
      by (simp add: begun_indices_append min_def)
  next
    case False
    then have "min (currentIndex s) (length (batch_tasks opt env files)) = currentIndex s"
      and "min (Suc (currentIndex s)) (length (batch_tasks opt env files)) = Suc (currentIndex s)"
      by simp_all
    with inv False show ?thesis
      by (simp add: begun_indices_append)
  qed
next
  fix k and s :: batch_state
  assume inv: "begun_indices (timeline s) =
     [0..<min (currentIndex s) (length (batch_tasks opt env files))]"
  obtain w i where wi: "awaiting s ! k = (w, i)" by (cases "awaiting s ! k")
  show "begun_indices (timeline (settle opt env client (batch_tasks opt env files) k s)) =
     [0..<min (currentIndex (settle opt env client (batch_tasks opt env files) k s))
            (length (batch_tasks opt env files))]"
  proof (cases "length (batch_tasks opt env files) \<le> currentIndex s")
    case True
    with inv show ?thesis
      by (simp add: settle_fields [OF wi] begun_indices_append min_def)
  next
    case False
    then have "min (currentIndex s) (length (batch_tasks opt env files)) = currentIndex s"
      and "min (Suc (currentIndex s)) (length (batch_tasks opt env files)) = Suc (currentIndex s)"
      by simp_all
    with inv False show ?thesis
      by (simp add: settle_fields [OF wi] begun_indices_append)
  qed
qed

lemma mset_without_nth:
  "k < length xs \<Longrightarrow> mset (take k xs) + mset (drop (Suc k) xs) + {#xs ! k#} = mset xs"
proof -
  assume "k < length xs"
  then have "xs = take k xs @ xs ! k # drop (Suc k) xs" by (rule id_take_nth_drop)
  then have "mset xs = mset (take k xs @ xs ! k # drop (Suc k) xs)" by simp
  then show ?thesis by simp
qed

text \<open>Every transfer begun has settled or is still awaited.\<close>

lemma run_batch_settled_inv:
  "mset (settled_indices (timeline (run_batch opt env client files windowSize stat_sched sched))) +
   mset (map snd (awaiting (run_batch opt env client files windowSize stat_sched sched))) =
   mset (begun_indices (timeline (run_batch opt env client files windowSize stat_sched sched)))"
proof (rule run_batch_invariant)
  show "mset (settled_indices (timeline (start_state opt env files stat_sched))) +
        mset (map snd (awaiting (start_state opt env files stat_sched))) =
        mset (begun_indices (timeline (start_state opt env files stat_sched)))"
    by (simp add: stat_events_no_transfer)
next
  fix w and s :: batch_state
  assume "mset (settled_indices (timeline s)) + mset (map snd (awaiting s)) =
          mset (begun_indices (timeline s))"
  then show "mset (settled_indices (timeline (spawn_worker (batch_tasks opt env files) w s))) +
        mset (map snd (awaiting (spawn_worker (batch_tasks opt env files) w s))) =
        mset (begun_indices (timeline (spawn_worker (batch_tasks opt env files) w s)))"
    by (simp add: settled_indices_append begun_indices_append)
next
  fix k and s :: batch_state
  assume inv: "mset (settled_indices (timeline s)) + mset (map snd (awaiting s)) =
          mset (begun_indices (timeline s))"
    and k: "k < length (awaiting s)"
  obtain w i where wi: "awaiting s ! k = (w, i)" by (cases "awaiting s ! k")
  define aw where "aw = map snd (awaiting s)"
  have ki: "aw ! k = i" and kl: "k < length aw"
    using k wi by (simp_all add: aw_def)
  have split: "mset (take k aw) + mset (drop (Suc k) aw) + {#i#} = mset aw"
    using mset_without_nth [OF kl] by (simp only: ki)
  have "mset (settled_indices (timeline s)) +
        (mset (take k aw) + mset (drop (Suc k) aw) + {#i#}) =
        mset (begun_indices (timeline s))"
    unfolding split using inv by (simp add: aw_def)
  then show "mset (settled_indices (timeline (settle opt env client (batch_tasks opt env files) k s))) +
        mset (map snd (awaiting (settle opt env client (batch_tasks opt env files) k s))) =
        mset (begun_indices (timeline (settle opt env client (batch_tasks opt env files) k s)))"
    by (simp add: settle_fields [OF wi] settled_indices_append begun_indices_append
          aw_def take_map drop_map)
qed


text \<open>When the run is over no worker waits and every index has been claimed.\<close>

lemma run_batch_awaiting:
  "awaiting (run_batch opt env client files windowSize stat_sched sched) = []"
  unfolding run_batch_eq by (rule drain_done)

lemma run_batch_all_claimed:
  "length (batch_tasks opt env files) \<le>
     currentIndex (run_batch opt env client files windowSize stat_sched sched)"
proof -
  define tasks where "tasks = batch_tasks opt env files"
  define W where "W = safeWindowSize windowSize tasks"
  define D where "D = (\<lambda>s :: batch_state. awaiting s \<noteq> [] \<or> length tasks \<le> currentIndex s)"
  have spawn: "D (spawn_worker tasks w s)" for w s
    by (simp add: D_def)
  have settle: "D (settle opt env client tasks k s)" for k s
  proof -
    obtain w i where wi: "awaiting s ! k = (w, i)" by (cases "awaiting s ! k")
    show ?thesis by (simp add: D_def settle_fields [OF wi])
  qed
  have "0 < W" unfolding W_def by (rule safeWindowSize_pos)
  then have "[0..<W] = [0..<W - 1] @ [W - 1]"
    by (cases W) simp_all
  then have "fold (spawn_worker tasks) [0..<W] (start_state opt env files stat_sched) =
      spawn_worker tasks (W - 1)
        (fold (spawn_worker tasks) [0..<W - 1] (start_state opt env files stat_sched))"
    by simp
  then have "D (fold (spawn_worker tasks) [0..<W] (start_state opt env files stat_sched))"
    by (simp only: spawn)
  then have "D (drain opt env client tasks sched
       (fold (spawn_worker tasks) [0..<W] (start_state opt env files stat_sched)))"
    by (rule drain_invariant [where P = D, OF settle])
  then have "D (run_batch opt env client files windowSize stat_sched sched)"
    by (simp add: run_batch_eq tasks_def W_def)
  then show ?thesis
    by (simp add: D_def run_batch_awaiting tasks_def)
qed

lemma run_batch_begun:
  "begun_indices (timeline (run_batch opt env client files windowSize stat_sched sched)) =
     [0..<length (batch_tasks opt env files)]"
  using run_batch_begun_inv [of opt env client files windowSize stat_sched sched]
    run_batch_all_claimed [of opt env files client windowSize stat_sched sched]
  by (simp add: min_def)

lemma run_batch_settled:
  "mset (settled_indices (timeline (run_batch opt env client files windowSize stat_sched sched))) =
     mset [0..<length (batch_tasks opt env files)]"
  using run_batch_settled_inv [of opt env client files windowSize stat_sched sched]
  by (simp add: run_batch_awaiting run_batch_begun)

lemma candidates_split:
  "length (stat_failures cands) + length (candidate_tasks cands) = length cands"
  by (induction cands rule: stat_failures.induct) simp_all

lemma run_batch_length:
  "length (results (run_batch opt env client files windowSize stat_sched sched)) = length files"
proof -
  have "length (settled_indices (timeline (run_batch opt env client files windowSize stat_sched sched))) =
        length (batch_tasks opt env files)"
    using run_batch_settled [of opt env client files windowSize stat_sched sched]
    by (metis length_upt mset_eq_length minus_nat.diff_0)
  then show ?thesis
    using candidates_split [of "map (taskCandidate opt env) files"]
    by (simp add: run_batch_results batch_tasks_eq)
qed

lemma candidate_results_split:
  "mset (map (candidate_result opt env client) files) =
     mset (stat_failures (map (taskCandidate opt env) files)) +
     mset (map (task_result opt env client) (candidate_tasks (map (taskCandidate opt env) files)))"
proof (induction files)
  case Nil
  show ?case by simp
next
  case (Cons f files)
  then show ?case
    by (cases "taskCandidate opt env f") (simp_all add: candidate_result_def task_result_def)
qed

lemma transfers_by_index:
  "map (\<lambda>i. fst (transfer_of opt env client tasks i)) [0..<length tasks] =
     map (task_result opt env client) tasks"
  by (rule nth_equalityI) (simp_all add: transfer_of_def task_result_def)

lemma run_batch_mset:
  "mset (results (run_batch opt env client files windowSize stat_sched sched)) =
     mset (map (candidate_result opt env client) files)"
proof -
  have "mset (map (\<lambda>i. fst (transfer_of opt env client (batch_tasks opt env files) i))
          (settled_indices (timeline (run_batch opt env client files windowSize stat_sched sched)))) =
        mset (map (\<lambda>i. fst (transfer_of opt env client (batch_tasks opt env files) i))
          [0..<length (batch_tasks opt env files)])"
    using run_batch_settled [of opt env client files windowSize stat_sched sched]
    by (simp only: mset_map)
  then have "mset (results (run_batch opt env client files windowSize stat_sched sched)) =
      mset (stat_failures (map (taskCandidate opt env) files)) +
      mset (map (task_result opt env client) (batch_tasks opt env files))"
    by (subst run_batch_results) (simp only: mset_append transfers_by_index)
  then show ?thesis
    by (simp only: candidate_results_split batch_tasks_eq)
qed

section \<open>Counters and progress\<close>

lemma stat_failures_failed: "filter success (stat_failures cands) = []"
  by (induction cands rule: stat_failures.induct) (simp_all add: stat_failure_result_def)

lemma run_batch_completed:
  "completed (run_batch opt env client files windowSize stat_sched sched) =
     length (results (run_batch opt env client files windowSize stat_sched sched))"
proof (rule run_batch_invariant)
  show "completed (start_state opt env files stat_sched) =
        length (results (start_state opt env files stat_sched))"
    by simp
next
  fix w and s :: batch_state
  assume "completed s = length (results s)"
  then show "completed (spawn_worker (batch_tasks opt env files) w s) =
        length (results (spawn_worker (batch_tasks opt env files) w s))"
    by simp
next
  fix k and s :: batch_state
  assume inv: "completed s = length (results s)"
  obtain w i where wi: "awaiting s ! k = (w, i)" by (cases "awaiting s ! k")
  show "completed (settle opt env client (batch_tasks opt env files) k s) =
        length (results (settle opt env client (batch_tasks opt env files) k s))"
    by (simp add: settle_fields [OF wi] inv)
qed

lemma fold_failed:
  "fold (\<lambda>result sum. if success result then js_add sum (result_size result) else sum)
     (stat_failures cands) x = x"
  by (induction cands rule: stat_failures.induct) (simp_all add: stat_failure_result_def)

text \<open>
  The running total is the total \<open>closeBundle\<close> computes from the results: both add
  the sizes of the successful results in the order of the array.
\<close>

lemma run_batch_uploadedBytes:
  "uploadedBytes (run_batch opt env client files windowSize stat_sched sched) =
     summary_uploadedBytes
       (summarise (results (run_batch opt env client files windowSize stat_sched sched)))"
proof (rule run_batch_invariant)
  show "uploadedBytes (start_state opt env files stat_sched) =
        summary_uploadedBytes (summarise (results (start_state opt env files stat_sched)))"
    by (simp add: summarise_def fold_failed)
next
  fix w and s :: batch_state
  assume "uploadedBytes s = summary_uploadedBytes (summarise (results s))"
  then show "uploadedBytes (spawn_worker (batch_tasks opt env files) w s) =
        summary_uploadedBytes
          (summarise (results (spawn_worker (batch_tasks opt env files) w s)))"
    by simp
next
  fix k and s :: batch_state
  assume inv: "uploadedBytes s = summary_uploadedBytes (summarise (results s))"
  obtain w i where wi: "awaiting s ! k = (w, i)" by (cases "awaiting s ! k")
  show "uploadedBytes (settle opt env client (batch_tasks opt env files) k s) =
        summary_uploadedBytes
          (summarise (results (settle opt env client (batch_tasks opt env files) k s)))"
    using inv by (simp add: settle_fields [OF wi] summarise_def)
qed

text \<open>While the exact total stays within \<open>2 ^ 53\<close> every addition is exact.\<close>

lemma fold_exact:
  "a + sum_list (map result_size (filter success rs)) \<le> 2 ^ 53 \<Longrightarrow>
   fold (\<lambda>result sum. if success result then js_add sum (result_size result) else sum)
     rs (Finite a) =
   Finite (a + sum_list (map result_size (filter success rs)))"
proof (induction rs arbitrary: a)
  case Nil
  show ?case by simp
next
  case (Cons r rs)
  show ?case
  proof (cases "success r")
    case False
    with Cons show ?thesis by simp
  next
    case True
    with Cons.prems have le: "a + result_size r \<le> 2 ^ 53"
      and rest: "(a + result_size r) + sum_list (map result_size (filter success rs)) \<le> 2 ^ 53"
      by simp_all
    from Cons.IH [OF rest] True show ?thesis
      by (simp add: js_add_exact [OF le] add.assoc del: js_add.simps)
  qed
qed

lemma summarise_exact:
  "sum_list (map result_size (filter success rs)) \<le> 2 ^ 53 \<Longrightarrow>
   summary_uploadedBytes (summarise rs) =
     Finite (sum_list (map result_size (filter success rs)))"
  using fold_exact [of 0 rs] by (simp add: summarise_def)

lemma run_batch_completed_mono:
  "sorted (map p_completed (progress_log (run_batch opt env client files windowSize stat_sched sched)) @
     [completed (run_batch opt env client files windowSize stat_sched sched)])"
proof (rule run_batch_invariant)
  show "sorted (map p_completed (progress_log (start_state opt env files stat_sched)) @
     [completed (start_state opt env files stat_sched)])"
    by simp
next
  fix w and s :: batch_state
  assume "sorted (map p_completed (progress_log s) @ [completed s])"
  then show "sorted (map p_completed (progress_log (spawn_worker (batch_tasks opt env files) w s)) @
     [completed (spawn_worker (batch_tasks opt env files) w s)])"
    by (simp add: spawn_worker_progress sorted_append)
next
  fix k and s :: batch_state
  assume inv: "sorted (map p_completed (progress_log s) @ [completed s])"
  obtain w i where wi: "awaiting s ! k = (w, i)" by (cases "awaiting s ! k")
  from inv show "sorted (map p_completed
        (progress_log (settle opt env client (batch_tasks opt env files) k s)) @
     [completed (settle opt env client (batch_tasks opt env files) k s)])"
    by (auto simp: settle_progress [OF wi] settle_fields [OF wi] sorted_append)
qed

text \<open>The running total is always a double, and it never goes down.\<close>

lemma run_batch_uploadedBytes_mono:
  "is_double (uploadedBytes (run_batch opt env client files windowSize stat_sched sched)) \<and>
   sorted_wrt number_le (map p_uploadedBytes
      (progress_log (run_batch opt env client files windowSize stat_sched sched)) @
     [uploadedBytes (run_batch opt env client files windowSize stat_sched sched)])"
proof (rule run_batch_invariant)
  show "is_double (uploadedBytes (start_state opt env files stat_sched)) \<and>
     sorted_wrt number_le (map p_uploadedBytes (progress_log (start_state opt env files stat_sched)) @
       [uploadedBytes (start_state opt env files stat_sched)])"
    by (simp add: round_small)
next
  fix w and s :: batch_state
  assume "is_double (uploadedBytes s) \<and>
     sorted_wrt number_le (map p_uploadedBytes (progress_log s) @ [uploadedBytes s])"
  then show "is_double (uploadedBytes (spawn_worker (batch_tasks opt env files) w s)) \<and>
     sorted_wrt number_le (map p_uploadedBytes
        (progress_log (spawn_worker (batch_tasks opt env files) w s)) @
       [uploadedBytes (spawn_worker (batch_tasks opt env files) w s)])"
    by (simp add: spawn_worker_progress sorted_wrt_append number_le_refl)
next
  fix k and s :: batch_state
  assume inv: "is_double (uploadedBytes s) \<and>
     sorted_wrt number_le (map p_uploadedBytes (progress_log s) @ [uploadedBytes s])"
  obtain w i where wi: "awaiting s ! k = (w, i)" by (cases "awaiting s ! k")
  define v where "v = uploadedBytes (settle opt env client (batch_tasks opt env files) k s)"
  have dbl: "is_double v"
    using inv by (simp add: v_def settle_fields [OF wi] js_add_is_double)
  have le: "number_le (uploadedBytes s) v"
    using inv by (simp add: v_def settle_fields [OF wi] js_add_increases number_le_refl)
  have below: "\<forall>x\<in>set (map p_uploadedBytes (progress_log s)). number_le x v"
    using inv le by (auto simp: sorted_wrt_append intro: number_le_trans)
  have old: "sorted_wrt number_le (map p_uploadedBytes (progress_log s))"
    using inv by (simp add: sorted_wrt_append)
  have "sorted_wrt number_le (map p_uploadedBytes
        (progress_log (settle opt env client (batch_tasks opt env files) k s)) @ [v])"
    using old below
    by (simp add: settle_progress [OF wi] v_def [symmetric] sorted_wrt_append number_le_refl)
  with dbl show "is_double (uploadedBytes (settle opt env client (batch_tasks opt env files) k s)) \<and>
     sorted_wrt number_le (map p_uploadedBytes
        (progress_log (settle opt env client (batch_tasks opt env files) k s)) @
       [uploadedBytes (settle opt env client (batch_tasks opt env files) k s)])"
    by (simp add: v_def)
qed

text \<open>A run on \<open>huge_env\<close>: two files, both uploaded, in one order or the other.\<close>

lemma mset_pair:
  assumes "mset xs = {#a, b#}"
  shows "xs = [a, b] \<or> xs = [b, a]"
proof -
  from assms have "size (mset xs) = 2" by simp
  then have "length xs = 2" by simp
  then obtain x y where xs: "xs = [x, y]"
    by (auto simp: length_Suc_conv numeral_2_eq_2)
  with assms show ?thesis by (auto simp: add_eq_conv_ex)
qed

lemma huge_candidates:
  "success (candidate_result demo_opt huge_env accepting_client ''a.js'') \<and>
   result_size (candidate_result demo_opt huge_env accepting_client ''a.js'') = 1 \<and>
   success (candidate_result demo_opt huge_env accepting_client ''huge.bin'') \<and>
   result_size (candidate_result demo_opt huge_env accepting_client ''huge.bin'') =
     9007199254740992"
  by (simp add: candidate_result_def taskCandidate_def candidate_path_def huge_env_def
        demo_opt_def uploadFileWithRetry_def uploadAttempts.simps [where attempt = 1]
        transfer_response_def accepting_client_def attempt_error_def)

lemma huge_results:
  "results (run_batch demo_opt huge_env accepting_client [''a.js'', ''huge.bin''] 1 [] []) =
     [candidate_result demo_opt huge_env accepting_client ''a.js'',
      candidate_result demo_opt huge_env accepting_client ''huge.bin''] \<or>
   results (run_batch demo_opt huge_env accepting_client [''a.js'', ''huge.bin''] 1 [] []) =
     [candidate_result demo_opt huge_env accepting_client ''huge.bin'',
      candidate_result demo_opt huge_env accepting_client ''a.js'']"
  by (rule mset_pair) (simp add: run_batch_mset)

lemma huge_total:
  "summary_uploadedBytes (summarise
     (results (run_batch demo_opt huge_env accepting_client [''a.js'', ''huge.bin''] 1 [] []))) =
   Finite 9007199254740992"
proof -
  have a1: "js_add (Finite 0) (Suc 0) = Finite (Suc 0)"
    using js_add_exact [of 0 1] by simp
  have a2: "js_add (Finite (Suc 0)) 9007199254740992 = Finite 9007199254740992"
    by (simp add: to_number_tie)
  have b1: "js_add (Finite 0) 9007199254740992 = Finite 9007199254740992"
    using js_add_exact [of 0 9007199254740992] by simp
  have b2: "js_add (Finite 9007199254740992) (Suc 0) = Finite 9007199254740992"
    by (simp add: to_number_tie)
  show ?thesis
    using huge_results huge_candidates
    by (auto simp: summarise_def a1 a2 b1 b2 simp del: js_add.simps)
qed

lemma huge_sum:
  "sum_list (map result_size (filter success
     (results (run_batch demo_opt huge_env accepting_client [''a.js'', ''huge.bin''] 1 [] [])))) =
   9007199254740993"
  using huge_results huge_candidates by auto

section \<open>The stat phase in the timeline\<close>

lemma settle_order_mset: "mset (settle_order sched xs) = mset xs"
proof (induction sched xs rule: settle_order.induct)
  case (1 sched xs)
  show ?case
  proof (cases "xs = []")
    case True
    then show ?thesis by (subst settle_order.simps) simp
  next
    case False
    define k where "k = next_choice sched mod length xs"
    have k: "k < length xs" using False by (simp add: k_def)
    have "mset (settle_order (tl sched) (take k xs @ drop (Suc k) xs)) =
          mset (take k xs @ drop (Suc k) xs)"
      using "1.IH" [OF False] by (simp add: k_def)
    then have "mset (settle_order sched xs) = mset (take k xs) + mset (drop (Suc k) xs) + {#xs ! k#}"
      using False by (subst settle_order.simps) (simp add: k_def)
    then show ?thesis by (simp only: mset_without_nth [OF k])
  qed
qed

lemma settle_order_length: "length (settle_order sched xs) = length xs"
  using settle_order_mset [of sched xs] by (rule mset_eq_length)

lemma in_flight_issued: "in_flight_from n (map StatIssued xs) = n + length xs"
  by (induction xs arbitrary: n) simp_all

lemma in_flight_settled: "in_flight_from n (map StatSettled xs) = n - length xs"
  by (induction xs arbitrary: n) simp_all

lemma in_flight_append: "in_flight_from n (xs @ ys) = in_flight_from (in_flight_from n xs) ys"
  by (induction n xs rule: in_flight_from.induct) simp_all

lemma run_batch_timeline:
  "\<exists>rest. timeline (run_batch opt env client files windowSize stat_sched sched) =
            stat_events opt env files stat_sched @ rest \<and>
          filter is_stat_event rest = []"
proof (rule run_batch_invariant)
  show "\<exists>rest. timeline (start_state opt env files stat_sched) =
            stat_events opt env files stat_sched @ rest \<and> filter is_stat_event rest = []"
    by simp
next
  fix w and s :: batch_state
  assume "\<exists>rest. timeline s = stat_events opt env files stat_sched @ rest \<and>
            filter is_stat_event rest = []"
  then obtain rest where "timeline s = stat_events opt env files stat_sched @ rest"
    and "filter is_stat_event rest = []" by blast
  then have "timeline (spawn_worker (batch_tasks opt env files) w s) =
       stat_events opt env files stat_sched @
       (rest @ [WorkerSpawned w,
                if length (batch_tasks opt env files) \<le> currentIndex s then WorkerReturned w
                else TransferBegun w (currentIndex s)]) \<and>
     filter is_stat_event
       (rest @ [WorkerSpawned w,
                if length (batch_tasks opt env files) \<le> currentIndex s then WorkerReturned w
                else TransferBegun w (currentIndex s)]) = []"
    by simp
  then show "\<exists>rest. timeline (spawn_worker (batch_tasks opt env files) w s) =
            stat_events opt env files stat_sched @ rest \<and> filter is_stat_event rest = []"
    by blast
next
  fix k and s :: batch_state
  assume "\<exists>rest. timeline s = stat_events opt env files stat_sched @ rest \<and>
            filter is_stat_event rest = []"
  then obtain rest where r: "timeline s = stat_events opt env files stat_sched @ rest"
    and "filter is_stat_event rest = []" by blast
  obtain w i where wi: "awaiting s ! k = (w, i)" by (cases "awaiting s ! k")
  define added where "added =
    [TransferSettled w i (snd (transfer_of opt env client (batch_tasks opt env files) i)),
     if length (batch_tasks opt env files) \<le> currentIndex s then WorkerReturned w
     else TransferBegun w (currentIndex s)]"
  have "timeline (settle opt env client (batch_tasks opt env files) k s) =
       stat_events opt env files stat_sched @ (rest @ added) \<and>
     filter is_stat_event (rest @ added) = []"
    using \<open>filter is_stat_event rest = []\<close>
    by (simp add: settle_fields [OF wi] r added_def)
  then show "\<exists>rest. timeline (settle opt env client (batch_tasks opt env files) k s) =
            stat_events opt env files stat_sched @ rest \<and> filter is_stat_event rest = []"
    by blast
qed

text \<open>The effects in the timeline are those of the transfers that settled.\<close>

lemma run_batch_effects:
  "settled_effects (timeline (run_batch opt env client files windowSize stat_sched sched)) =
     concat (map (\<lambda>i. snd (transfer_of opt env client (batch_tasks opt env files) i))
       (settled_indices (timeline (run_batch opt env client files windowSize stat_sched sched))))"
proof (rule run_batch_invariant)
  show "settled_effects (timeline (start_state opt env files stat_sched)) =
     concat (map (\<lambda>i. snd (transfer_of opt env client (batch_tasks opt env files) i))
       (settled_indices (timeline (start_state opt env files stat_sched))))"
    by (simp add: stat_events_no_transfer)
next
  fix w and s :: batch_state
  assume "settled_effects (timeline s) =
     concat (map (\<lambda>i. snd (transfer_of opt env client (batch_tasks opt env files) i))
       (settled_indices (timeline s)))"
  then show "settled_effects (timeline (spawn_worker (batch_tasks opt env files) w s)) =
     concat (map (\<lambda>i. snd (transfer_of opt env client (batch_tasks opt env files) i))
       (settled_indices (timeline (spawn_worker (batch_tasks opt env files) w s))))"
    by (simp add: settled_effects_append settled_indices_append)
next
  fix k and s :: batch_state
  assume inv: "settled_effects (timeline s) =
     concat (map (\<lambda>i. snd (transfer_of opt env client (batch_tasks opt env files) i))
       (settled_indices (timeline s)))"
  obtain w i where wi: "awaiting s ! k = (w, i)" by (cases "awaiting s ! k")
  show "settled_effects (timeline (settle opt env client (batch_tasks opt env files) k s)) =
     concat (map (\<lambda>i. snd (transfer_of opt env client (batch_tasks opt env files) i))
       (settled_indices (timeline (settle opt env client (batch_tasks opt env files) k s))))"
    by (simp add: settle_fields [OF wi] settled_effects_append settled_indices_append inv)
qed

lemma run_batch_client_calls:
  "set (client_calls (timeline (run_batch opt env client files windowSize stat_sched sched)))
     \<subseteq> transfer_call opt ` set (batch_tasks opt env files)"
proof
  fix c
  assume "c \<in> set (client_calls (timeline (run_batch opt env client files windowSize stat_sched sched)))"
  then obtain i where
    i: "i \<in> set (settled_indices (timeline (run_batch opt env client files windowSize stat_sched sched)))"
    and c: "c \<in> set (filter is_transfer_call
                (snd (transfer_of opt env client (batch_tasks opt env files) i)))"
    by (auto simp: client_calls_def run_batch_effects)
  have "set (settled_indices (timeline (run_batch opt env client files windowSize stat_sched sched))) =
        set [0..<length (batch_tasks opt env files)]"
    using run_batch_settled [of opt env client files windowSize stat_sched sched]
    by (rule mset_eq_setD)
  with i have lt: "i < length (batch_tasks opt env files)" by simp
  have "c = transfer_call opt (batch_tasks opt env files ! i)"
    using c uploadAttempts_calls [of opt env client "batch_tasks opt env files ! i"
        "useInteractiveOutput opt" "retryTimes opt" 1]
    by (auto simp: transfer_of_def uploadFileWithRetry_def)
  with lt show "c \<in> transfer_call opt ` set (batch_tasks opt env files)"
    by simp
qed

section \<open>Claims about the batch run\<close>

text \<open>
  Claim C1 says that the array returned by \<open>uploadFilesInBatches\<close> has one entry per
  candidate and that its order is the order of the candidates, whatever the order in
  which the transfers complete.  The order fails.  With two files, two workers and the
  second transfer settling first, the result of \<open>b.js\<close> comes before that of \<open>a.js\<close>:
  a worker appends its result when its transfer settles.  With one worker and the files
  \<open>a.js\<close>, \<open>gone.js\<close>, where \<open>gone.js\<close> cannot be read, the failure of \<open>gone.js\<close>
  comes first: the stat failures are appended before any transfer starts.
\<close>

theorem results_order_counterexample:
  "(1::int) \<le> 2 \<and> (2::int) \<le> int (length [''a.js'', ''b.js'']) \<and>
   map name (uploadFilesInBatches demo_opt demo_env accepting_client [''a.js'', ''b.js''] 2 [] [1]) =
     [''test/__test/b.js'', ''test/__test/a.js''] \<and>
   map (normalizeObjectKey demo_env (uploadDir demo_opt)) [''a.js'', ''b.js''] =
     [''test/__test/a.js'', ''test/__test/b.js''] \<and>
   map name (uploadFilesInBatches demo_opt demo_env accepting_client [''a.js'', ''b.js''] 2 [] [1]) \<noteq>
     map (normalizeObjectKey demo_env (uploadDir demo_opt)) [''a.js'', ''b.js''] \<and>
   map name (uploadFilesInBatches demo_opt demo_env accepting_client [''a.js'', ''gone.js''] 1 [] []) =
     [''test/__test/gone.js'', ''test/__test/a.js'']"
  by code_simp

text \<open>
  Claim C1, amended.  For every batch of \<open>N\<close> candidates, every window size and every
  order of completion, the array returned by \<open>uploadFilesInBatches\<close> has exactly \<open>N\<close>
  entries: first the results of the candidates whose \<open>stat\<close> failed, in candidate
  order, then the results of the transfers in the order in which the transfers settled,
  every task exactly once.
\<close>

theorem uploadFilesInBatches_results:
  "length (uploadFilesInBatches opt env client files windowSize stat_sched sched) = length files \<and>
   uploadFilesInBatches opt env client files windowSize stat_sched sched =
     stat_failures (map (taskCandidate opt env) files) @
     map (\<lambda>i. task_result opt env client (batch_tasks opt env files ! i))
       (settled_indices (timeline (run_batch opt env client files windowSize stat_sched sched))) \<and>
   mset (settled_indices (timeline (run_batch opt env client files windowSize stat_sched sched))) =
     mset [0..<length (batch_tasks opt env files)] \<and>
   length (stat_failures (map (taskCandidate opt env) files)) + length (batch_tasks opt env files) =
     length files"
proof -
  have "(\<lambda>i. fst (transfer_of opt env client (batch_tasks opt env files) i)) =
        (\<lambda>i. task_result opt env client (batch_tasks opt env files ! i))"
    by (simp add: transfer_of_def task_result_def)
  then have "uploadFilesInBatches opt env client files windowSize stat_sched sched =
     stat_failures (map (taskCandidate opt env) files) @
     map (\<lambda>i. task_result opt env client (batch_tasks opt env files ! i))
       (settled_indices (timeline (run_batch opt env client files windowSize stat_sched sched)))"
    unfolding uploadFilesInBatches_def by (subst run_batch_results) simp
  moreover have "length (uploadFilesInBatches opt env client files windowSize stat_sched sched) =
      length files"
    unfolding uploadFilesInBatches_def by (rule run_batch_length)
  moreover have "length (stat_failures (map (taskCandidate opt env) files)) +
      length (batch_tasks opt env files) = length files"
    using candidates_split [of "map (taskCandidate opt env) files"]
    by (simp add: batch_tasks_eq)
  ultimately show ?thesis
    using run_batch_settled [of opt env client files windowSize stat_sched sched]
    by (intro conjI)
qed

text \<open>Four candidates, one unreadable, two workers, the second transfer settling first.\<close>

theorem uploadFilesInBatches_results_witness:
  "length (uploadFilesInBatches demo_opt demo_env accepting_client
      [''a.js'', ''b.js'', ''gone.js'', ''c.js''] 2 [] [1, 0]) = 4 \<and>
   map name (uploadFilesInBatches demo_opt demo_env accepting_client
      [''a.js'', ''b.js'', ''gone.js'', ''c.js''] 2 [] [1, 0]) =
     [''test/__test/gone.js'', ''test/__test/b.js'', ''test/__test/a.js'', ''test/__test/c.js''] \<and>
   settled_indices (timeline (run_batch demo_opt demo_env accepting_client
      [''a.js'', ''b.js'', ''gone.js'', ''c.js''] 2 [] [1, 0])) = [1, 0, 2]"
proof -
  have 1: "length (uploadFilesInBatches demo_opt demo_env accepting_client
      [''a.js'', ''b.js'', ''gone.js'', ''c.js''] 2 [] [1, 0]) = 4"
    using uploadFilesInBatches_results [of demo_opt demo_env accepting_client
        "[''a.js'', ''b.js'', ''gone.js'', ''c.js'']" 2 "[]" "[1, 0]", THEN conjunct1]
    by simp
  have 2: "map name (uploadFilesInBatches demo_opt demo_env accepting_client
      [''a.js'', ''b.js'', ''gone.js'', ''c.js''] 2 [] [1, 0]) =
     [''test/__test/gone.js'', ''test/__test/b.js'', ''test/__test/a.js'', ''test/__test/c.js'']"
    by code_simp
  have 3: "settled_indices (timeline (run_batch demo_opt demo_env accepting_client
      [''a.js'', ''b.js'', ''gone.js'', ''c.js''] 2 [] [1, 0])) = [1, 0, 2]"
    by code_simp
  from 1 2 3 show ?thesis by (intro conjI)
qed

text \<open>
  Claim C2.  The results returned for a list of candidates are, as a multiset, exactly
  the results of the candidates, one each: nothing is dropped or repeated.  A candidate
  whose \<open>stat\<close> fails gets \<open>success = false\<close>, \<open>size = 0\<close>, \<open>retries = 0\<close> and the
  error of \<open>stat\<close>; the other candidates get the result of their transfer.  The tasks
  handed to the workers are those of the candidates whose \<open>stat\<close> succeeded, the
  transfers begun are the transfers of these tasks, and every call of \<open>put\<close> or
  \<open>multipartUpload\<close> in the run is the call of one of these tasks.
\<close>

theorem one_result_per_candidate:
  "mset (uploadFilesInBatches opt env client files windowSize stat_sched sched) =
     mset (map (candidate_result opt env client) files) \<and>
   (\<forall>f e. stat env (candidate_path opt env f) = Inl e \<longrightarrow>
      candidate_result opt env client f =
        \<lparr> success = False, result_file = candidate_path opt env f,
          name = normalizeObjectKey env (uploadDir opt) f, result_size = 0, retries = 0,
          error = Some e \<rparr>) \<and>
   (\<forall>f sz. stat env (candidate_path opt env f) = Inr sz \<longrightarrow>
      candidate_result opt env client f =
        task_result opt env client
          \<lparr> filePath = candidate_path opt env f,
            task_name = normalizeObjectKey env (uploadDir opt) f, task_size = sz \<rparr>) \<and>
   map filePath (batch_tasks opt env files) =
     filter (\<lambda>p. \<not> isl (stat env p)) (map (candidate_path opt env) files) \<and>
   begun_indices (timeline (run_batch opt env client files windowSize stat_sched sched)) =
     [0..<length (batch_tasks opt env files)] \<and>
   set (client_calls (timeline (run_batch opt env client files windowSize stat_sched sched)))
     \<subseteq> transfer_call opt ` set (batch_tasks opt env files)"
proof -
  have a: "mset (uploadFilesInBatches opt env client files windowSize stat_sched sched) =
     mset (map (candidate_result opt env client) files)"
    unfolding uploadFilesInBatches_def by (rule run_batch_mset)
  have b: "\<forall>f e. stat env (candidate_path opt env f) = Inl e \<longrightarrow>
      candidate_result opt env client f =
        \<lparr> success = False, result_file = candidate_path opt env f,
          name = normalizeObjectKey env (uploadDir opt) f, result_size = 0, retries = 0,
          error = Some e \<rparr>"
    by (simp add: candidate_result_def taskCandidate_def stat_failure_result_def)
  have c: "\<forall>f sz. stat env (candidate_path opt env f) = Inr sz \<longrightarrow>
      candidate_result opt env client f =
        task_result opt env client
          \<lparr> filePath = candidate_path opt env f,
            task_name = normalizeObjectKey env (uploadDir opt) f, task_size = sz \<rparr>"
    by (simp add: candidate_result_def taskCandidate_def task_result_def)
  have d: "map filePath (batch_tasks opt env files) =
     filter (\<lambda>p. \<not> isl (stat env p)) (map (candidate_path opt env) files)"
    unfolding batch_tasks_eq
    by (induction files) (simp_all add: taskCandidate_def split: sum.splits)
  from a b c d run_batch_begun [of opt env client files windowSize stat_sched sched]
    run_batch_client_calls [of opt env client files windowSize stat_sched sched]
  show ?thesis by (intro conjI)
qed


text \<open>A readable and an unreadable candidate.\<close>

theorem one_result_per_candidate_witness:
  "mset (uploadFilesInBatches demo_opt demo_env accepting_client [''a.js'', ''gone.js''] 2 [] []) =
     {# \<lparr> success = True, result_file = ''dist/a.js'', name = ''test/__test/a.js'',
           result_size = 9, retries = 0, error = None \<rparr>,
        \<lparr> success = False, result_file = ''dist/gone.js'', name = ''test/__test/gone.js'',
           result_size = 0, retries = 0, error = Some (FsError ''ENOENT'') \<rparr> #} \<and>
   stat demo_env (candidate_path demo_opt demo_env ''gone.js'') = Inl (FsError ''ENOENT'') \<and>
   map filePath (batch_tasks demo_opt demo_env [''a.js'', ''gone.js'']) = [''dist/a.js'']"
proof -
  note t = one_result_per_candidate [of demo_opt demo_env accepting_client
      "[''a.js'', ''gone.js'']" 2 "[]" "[]"]
  have s: "stat demo_env (candidate_path demo_opt demo_env ''gone.js'') = Inl (FsError ''ENOENT'')"
    by code_simp
  have p: "candidate_path demo_opt demo_env ''gone.js'' = ''dist/gone.js''"
    by code_simp
  have k: "normalizeObjectKey demo_env (uploadDir demo_opt) ''gone.js'' = ''test/__test/gone.js''"
    by code_simp
  have g: "candidate_result demo_opt demo_env accepting_client ''gone.js'' =
     \<lparr> success = False, result_file = ''dist/gone.js'', name = ''test/__test/gone.js'',
       result_size = 0, retries = 0, error = Some (FsError ''ENOENT'') \<rparr>"
    using t [THEN conjunct2, THEN conjunct1, rule_format, OF s] by (simp only: p k)
  have a: "candidate_result demo_opt demo_env accepting_client ''a.js'' =
     \<lparr> success = True, result_file = ''dist/a.js'', name = ''test/__test/a.js'',
       result_size = 9, retries = 0, error = None \<rparr>"
    by code_simp
  have m: "mset (uploadFilesInBatches demo_opt demo_env accepting_client [''a.js'', ''gone.js''] 2 [] []) =
     {# \<lparr> success = True, result_file = ''dist/a.js'', name = ''test/__test/a.js'',
           result_size = 9, retries = 0, error = None \<rparr>,
        \<lparr> success = False, result_file = ''dist/gone.js'', name = ''test/__test/gone.js'',
           result_size = 0, retries = 0, error = Some (FsError ''ENOENT'') \<rparr> #}"
    using t [THEN conjunct1] by (simp add: a g)
  have f: "map filePath (batch_tasks demo_opt demo_env [''a.js'', ''gone.js'']) = [''dist/a.js'']"
    by code_simp
  from m s f show ?thesis by (intro conjI)
qed

text \<open>
  Claim C6 says that at the end of a run the accumulated byte counter equals the sum of
  the sizes of the results with \<open>success = true\<close>.  As an equation between numbers this
  fails: \<open>uploadedBytes += result.size\<close> is an addition of doubles.  With a file of one
  byte and a file of \<open>2 ^ 53\<close> bytes, both uploaded, the counter ends at
  \<open>9007199254740992\<close>, and so does the total \<open>closeBundle\<close> computes, while the sizes
  add up to \<open>9007199254740993\<close>.
\<close>

theorem bytes_sum_inexact_counterexample:
  "map (\<lambda>f. stat huge_env (candidate_path demo_opt huge_env f)) [''a.js'', ''huge.bin''] =
     [Inr 1, Inr 9007199254740992] \<and>
   length (filter success
     (uploadFilesInBatches demo_opt huge_env accepting_client [''a.js'', ''huge.bin''] 1 [] [])) = 2 \<and>
   sum_list (map result_size (filter success
     (uploadFilesInBatches demo_opt huge_env accepting_client [''a.js'', ''huge.bin''] 1 [] []))) =
     9007199254740993 \<and>
   uploadedBytes (run_batch demo_opt huge_env accepting_client [''a.js'', ''huge.bin''] 1 [] []) =
     Finite 9007199254740992 \<and>
   summary_uploadedBytes (summarise
     (uploadFilesInBatches demo_opt huge_env accepting_client [''a.js'', ''huge.bin''] 1 [] [])) =
     Finite 9007199254740992"
proof -
  have 1: "map (\<lambda>f. stat huge_env (candidate_path demo_opt huge_env f)) [''a.js'', ''huge.bin''] =
     [Inr 1, Inr 9007199254740992]"
    by (simp add: candidate_path_def huge_env_def demo_opt_def)
  have 2: "length (filter success
     (uploadFilesInBatches demo_opt huge_env accepting_client [''a.js'', ''huge.bin''] 1 [] [])) = 2"
    unfolding uploadFilesInBatches_def using huge_results huge_candidates by auto
  have 3: "sum_list (map result_size (filter success
     (uploadFilesInBatches demo_opt huge_env accepting_client [''a.js'', ''huge.bin''] 1 [] []))) =
     9007199254740993"
    unfolding uploadFilesInBatches_def by (rule huge_sum)
  have 4: "uploadedBytes (run_batch demo_opt huge_env accepting_client [''a.js'', ''huge.bin''] 1 [] []) =
     Finite 9007199254740992"
    by (simp only: run_batch_uploadedBytes huge_total)
  have 5: "summary_uploadedBytes (summarise
     (uploadFilesInBatches demo_opt huge_env accepting_client [''a.js'', ''huge.bin''] 1 [] [])) =
     Finite 9007199254740992"
    unfolding uploadFilesInBatches_def by (rule huge_total)
  from 1 2 3 4 5 show ?thesis by (intro conjI)
qed

text \<open>
  Claim C6, amended.  At the end of a run \<open>completed\<close> is the number of candidates and
  \<open>uploadedBytes\<close> is the total of \<open>size\<close> over the results with \<open>success = true\<close> as
  JavaScript adds them, in the order of the results, which is the figure \<open>closeBundle\<close>
  computes; it is the exact sum whenever the exact sum is at most \<open>2 ^ 53\<close>.  Every
  task settles exactly once; and the values of \<open>completed\<close> and of \<open>uploadedBytes\<close> seen
  by the successive calls of \<open>updateProgress\<close>, followed by the final values, never
  decrease.
\<close>

theorem counters_consistent:
  "completed (run_batch opt env client files windowSize stat_sched sched) = length files \<and>
   uploadedBytes (run_batch opt env client files windowSize stat_sched sched) =
     summary_uploadedBytes
       (summarise (uploadFilesInBatches opt env client files windowSize stat_sched sched)) \<and>
   (sum_list (map result_size
       (filter success (uploadFilesInBatches opt env client files windowSize stat_sched sched)))
      \<le> 2 ^ 53 \<longrightarrow>
    uploadedBytes (run_batch opt env client files windowSize stat_sched sched) =
      Finite (sum_list (map result_size
        (filter success (uploadFilesInBatches opt env client files windowSize stat_sched sched))))) \<and>
   mset (settled_indices (timeline (run_batch opt env client files windowSize stat_sched sched))) =
     mset [0..<length (batch_tasks opt env files)] \<and>
   sorted (map p_completed
       (progress_log (run_batch opt env client files windowSize stat_sched sched)) @
     [completed (run_batch opt env client files windowSize stat_sched sched)]) \<and>
   sorted_wrt number_le (map p_uploadedBytes
       (progress_log (run_batch opt env client files windowSize stat_sched sched)) @
     [uploadedBytes (run_batch opt env client files windowSize stat_sched sched)])"
proof -
  have 1: "completed (run_batch opt env client files windowSize stat_sched sched) = length files"
    by (simp add: run_batch_completed run_batch_length)
  have 2: "uploadedBytes (run_batch opt env client files windowSize stat_sched sched) =
     summary_uploadedBytes
       (summarise (uploadFilesInBatches opt env client files windowSize stat_sched sched))"
    unfolding uploadFilesInBatches_def by (rule run_batch_uploadedBytes)
  have 3: "sum_list (map result_size
       (filter success (uploadFilesInBatches opt env client files windowSize stat_sched sched)))
      \<le> 2 ^ 53 \<longrightarrow>
    uploadedBytes (run_batch opt env client files windowSize stat_sched sched) =
      Finite (sum_list (map result_size
        (filter success (uploadFilesInBatches opt env client files windowSize stat_sched sched))))"
  proof
    assume "sum_list (map result_size
       (filter success (uploadFilesInBatches opt env client files windowSize stat_sched sched)))
      \<le> 2 ^ 53"
    then show "uploadedBytes (run_batch opt env client files windowSize stat_sched sched) =
      Finite (sum_list (map result_size
        (filter success (uploadFilesInBatches opt env client files windowSize stat_sched sched))))"
      by (simp only: 2 summarise_exact)
  qed
  from 1 2 3 show ?thesis
    using run_batch_settled [of opt env client files windowSize stat_sched sched]
      run_batch_completed_mono [of opt env client files windowSize stat_sched sched]
      run_batch_uploadedBytes_mono [of opt env client files windowSize stat_sched sched,
        THEN conjunct2]
    by (intro conjI)
qed

text \<open>Four candidates, of which one is unreadable and three are uploaded.\<close>

theorem counters_consistent_witness:
  "completed (run_batch demo_opt demo_env accepting_client
      [''a.js'', ''b.js'', ''gone.js'', ''c.js''] 2 [2, 0] [1, 0]) = 4 \<and>
   sum_list (map result_size (filter success (uploadFilesInBatches demo_opt demo_env
      accepting_client [''a.js'', ''b.js'', ''gone.js'', ''c.js''] 2 [2, 0] [1, 0]))) = 27 \<and>
   (27::nat) \<le> 2 ^ 53 \<and>
   uploadedBytes (run_batch demo_opt demo_env accepting_client
      [''a.js'', ''b.js'', ''gone.js'', ''c.js''] 2 [2, 0] [1, 0]) = Finite 27 \<and>
   map p_completed (progress_log (run_batch demo_opt demo_env accepting_client
      [''a.js'', ''b.js'', ''gone.js'', ''c.js''] 2 [2, 0] [1, 0])) = [1, 1, 1, 2, 2, 3, 4] \<and>
   map p_uploadedBytes (progress_log (run_batch demo_opt demo_env accepting_client
      [''a.js'', ''b.js'', ''gone.js'', ''c.js''] 2 [2, 0] [1, 0])) =
     [Finite 0, Finite 0, Finite 0, Finite 9, Finite 9, Finite 18, Finite 27]"
proof -
  note t = counters_consistent [of demo_opt demo_env accepting_client
      "[''a.js'', ''b.js'', ''gone.js'', ''c.js'']" 2 "[2, 0]" "[1, 0]"]
  have 1: "completed (run_batch demo_opt demo_env accepting_client
      [''a.js'', ''b.js'', ''gone.js'', ''c.js''] 2 [2, 0] [1, 0]) = 4"
    using t [THEN conjunct1] by simp
  have 2: "sum_list (map result_size (filter success (uploadFilesInBatches demo_opt demo_env
      accepting_client [''a.js'', ''b.js'', ''gone.js'', ''c.js''] 2 [2, 0] [1, 0]))) = 27"
    by code_simp
  have 3: "(27::nat) \<le> 2 ^ 53"
    by simp
  have 4: "uploadedBytes (run_batch demo_opt demo_env accepting_client
      [''a.js'', ''b.js'', ''gone.js'', ''c.js''] 2 [2, 0] [1, 0]) = Finite 27"
    using t [THEN conjunct2, THEN conjunct2, THEN conjunct1] 3 by (simp only: 2)
  have 5: "map p_completed (progress_log (run_batch demo_opt demo_env accepting_client
      [''a.js'', ''b.js'', ''gone.js'', ''c.js''] 2 [2, 0] [1, 0])) = [1, 1, 1, 2, 2, 3, 4]"
    by code_simp
  have 6: "map p_uploadedBytes (progress_log (run_batch demo_opt demo_env accepting_client
      [''a.js'', ''b.js'', ''gone.js'', ''c.js''] 2 [2, 0] [1, 0])) =
     [Finite 0, Finite 0, Finite 0, Finite 9, Finite 9, Finite 18, Finite 27]"
    by code_simp
  from 1 2 3 4 5 6 show ?thesis by (intro conjI)
qed

section \<open>A batch in which every stat fails\<close>

lemma all_failed_tasks:
  assumes "\<forall>f\<in>set files. isl (stat env (candidate_path opt env f))"
  shows "candidate_tasks (map (taskCandidate opt env) files) = []"
  using assms
  by (induction files) (auto simp: taskCandidate_def split: sum.splits)

lemma all_failed_results:
  assumes "\<forall>f\<in>set files. isl (stat env (candidate_path opt env f))"
  shows "stat_failures (map (taskCandidate opt env) files) =
         map (candidate_result opt env client) files"
  using assms
  by (induction files) (auto simp: taskCandidate_def candidate_result_def split: sum.splits)

lemma all_failed_shape:
  assumes "\<forall>f\<in>set files. isl (stat env (candidate_path opt env f))"
  shows "list_all (\<lambda>r. \<not> success r \<and> result_size r = 0 \<and> retries r = 0)
           (stat_failures (map (taskCandidate opt env) files))"
  using assms
  by (induction files) (auto simp: taskCandidate_def stat_failure_result_def split: sum.splits)

lemma run_batch_no_tasks:
  assumes "batch_tasks opt env files = []"
  shows "run_batch opt env client files windowSize stat_sched sched =
           spawn_worker [] 0 (start_state opt env files stat_sched)"
proof -
  have w: "safeWindowSize windowSize [] = 1"
    by (simp add: safeWindowSize_def)
  have "awaiting (spawn_worker [] 0 (start_state opt env files stat_sched)) = []"
    by simp
  then have "drain opt env client [] sched (spawn_worker [] 0 (start_state opt env files stat_sched)) =
        spawn_worker [] 0 (start_state opt env files stat_sched)"
    by (subst drain.simps) simp
  then show ?thesis
    by (simp add: run_batch_eq assms w)
qed

text \<open>
  Claim C10.  When the batch is not empty and \<open>stat\<close> fails for every candidate, there
  is no task; \<open>safeWindowSize\<close> is 1; the one worker is spawned and returns at once, so
  the run ends with no worker waiting; no call of \<open>put\<close> or \<open>multipartUpload\<close> is made;
  and the results are the failures of the candidates, one each in candidate order, all
  with \<open>success = false\<close>, \<open>size = 0\<close> and \<open>retries = 0\<close>.
\<close>

theorem all_stats_fail:
  assumes "files \<noteq> []"
    and "\<forall>f\<in>set files. isl (stat env (candidate_path opt env f))"
  shows "batch_tasks opt env files = [] \<and>
         safeWindowSize windowSize (batch_tasks opt env files) = 1 \<and>
         timeline (run_batch opt env client files windowSize stat_sched sched) =
           stat_events opt env files stat_sched @ [WorkerSpawned 0, WorkerReturned 0] \<and>
         spawned_workers (timeline (run_batch opt env client files windowSize stat_sched sched)) = [0] \<and>
         awaiting (run_batch opt env client files windowSize stat_sched sched) = [] \<and>
         begun_indices (timeline (run_batch opt env client files windowSize stat_sched sched)) = [] \<and>
         client_calls (timeline (run_batch opt env client files windowSize stat_sched sched)) = [] \<and>
         uploadFilesInBatches opt env client files windowSize stat_sched sched =
           map (candidate_result opt env client) files \<and>
         length (uploadFilesInBatches opt env client files windowSize stat_sched sched) = length files \<and>
         list_all (\<lambda>r. \<not> success r \<and> result_size r = 0 \<and> retries r = 0)
           (uploadFilesInBatches opt env client files windowSize stat_sched sched)"
proof -
  have t: "batch_tasks opt env files = []"
    unfolding batch_tasks_eq by (rule all_failed_tasks [OF assms(2)])
  note run = run_batch_no_tasks [where client = client and windowSize = windowSize
      and stat_sched = stat_sched and sched = sched, OF t]
  have w: "safeWindowSize windowSize (batch_tasks opt env files) = 1"
    by (simp add: t safeWindowSize_def)
  have tl: "timeline (run_batch opt env client files windowSize stat_sched sched) =
           stat_events opt env files stat_sched @ [WorkerSpawned 0, WorkerReturned 0]"
    by (simp add: run)
  have sp: "spawned_workers (timeline (run_batch opt env client files windowSize stat_sched sched)) = [0]"
    by (simp add: tl spawned_workers_append stat_events_no_transfer)
  have aw: "awaiting (run_batch opt env client files windowSize stat_sched sched) = []"
    by (rule run_batch_awaiting)
  have bg: "begun_indices (timeline (run_batch opt env client files windowSize stat_sched sched)) = []"
    by (simp add: tl begun_indices_append stat_events_no_transfer)
  have cc: "client_calls (timeline (run_batch opt env client files windowSize stat_sched sched)) = []"
    by (simp add: tl client_calls_def settled_effects_append stat_events_no_transfer)
  have rs: "uploadFilesInBatches opt env client files windowSize stat_sched sched =
           stat_failures (map (taskCandidate opt env) files)"
    by (simp add: uploadFilesInBatches_def run)
  have r1: "uploadFilesInBatches opt env client files windowSize stat_sched sched =
           map (candidate_result opt env client) files"
    unfolding rs by (rule all_failed_results [OF assms(2)])
  have r2: "length (uploadFilesInBatches opt env client files windowSize stat_sched sched) = length files"
    unfolding r1 by simp
  have r3: "list_all (\<lambda>r. \<not> success r \<and> result_size r = 0 \<and> retries r = 0)
           (uploadFilesInBatches opt env client files windowSize stat_sched sched)"
    unfolding rs by (rule all_failed_shape [OF assms(2)])
  from t w tl sp aw bg cc r1 r2 r3 show ?thesis by (intro conjI)
qed

text \<open>Two unreadable candidates and a window of five.\<close>

theorem all_stats_fail_witness:
  "[''gone.js'', ''gone.js''] \<noteq> ([] :: string list) \<and>
   list_all (\<lambda>f. isl (stat demo_env (candidate_path demo_opt demo_env f))) [''gone.js'', ''gone.js''] \<and>
   timeline (run_batch demo_opt demo_env accepting_client [''gone.js'', ''gone.js''] 5 [] []) =
     [StatIssued ''dist/gone.js'', StatIssued ''dist/gone.js'',
      StatSettled ''dist/gone.js'', StatSettled ''dist/gone.js'',
      WorkerSpawned 0, WorkerReturned 0] \<and>
   client_calls (timeline (run_batch demo_opt demo_env accepting_client
      [''gone.js'', ''gone.js''] 5 [] [])) = [] \<and>
   length (uploadFilesInBatches demo_opt demo_env accepting_client [''gone.js'', ''gone.js''] 5 [] []) = 2 \<and>
   list_all (\<lambda>r. \<not> success r \<and> result_size r = 0 \<and> retries r = 0)
     (uploadFilesInBatches demo_opt demo_env accepting_client [''gone.js'', ''gone.js''] 5 [] [])"
proof -
  have ne: "[''gone.js'', ''gone.js''] \<noteq> ([] :: string list)" by simp
  have st: "isl (stat demo_env (candidate_path demo_opt demo_env ''gone.js''))"
    by code_simp
  then have all: "\<forall>f\<in>set [''gone.js'', ''gone.js'']. isl (stat demo_env (candidate_path demo_opt demo_env f))"
    by simp
  note t = all_stats_fail [where client = accepting_client and windowSize = 5
      and stat_sched = "[]" and sched = "[]", OF ne all]
  have se: "stat_events demo_opt demo_env [''gone.js'', ''gone.js''] [] =
     [StatIssued ''dist/gone.js'', StatIssued ''dist/gone.js'',
      StatSettled ''dist/gone.js'', StatSettled ''dist/gone.js'']"
    by code_simp
  have 1: "list_all (\<lambda>f. isl (stat demo_env (candidate_path demo_opt demo_env f))) [''gone.js'', ''gone.js'']"
    using st by simp
  have 2: "timeline (run_batch demo_opt demo_env accepting_client [''gone.js'', ''gone.js''] 5 [] []) =
     [StatIssued ''dist/gone.js'', StatIssued ''dist/gone.js'',
      StatSettled ''dist/gone.js'', StatSettled ''dist/gone.js'',
      WorkerSpawned 0, WorkerReturned 0]"
    using t [THEN conjunct2, THEN conjunct2, THEN conjunct1] by (simp add: se)
  have 3: "client_calls (timeline (run_batch demo_opt demo_env accepting_client
      [''gone.js'', ''gone.js''] 5 [] [])) = []"
    using t by (elim conjE)
  have 4: "length (uploadFilesInBatches demo_opt demo_env accepting_client [''gone.js'', ''gone.js''] 5 [] []) = 2"
    using t by (elim conjE) simp
  have 5: "list_all (\<lambda>r. \<not> success r \<and> result_size r = 0 \<and> retries r = 0)
     (uploadFilesInBatches demo_opt demo_env accepting_client [''gone.js'', ''gone.js''] 5 [] [])"
    using t by (elim conjE)
  from ne 1 2 3 4 5 show ?thesis by (intro conjI)
qed

section \<open>The stat phase\<close>

text \<open>
  Claim C5 says that the stat lookups of a batch run are bounded by the concurrency cap
  of the transfers and all settle before any transfer begins.  The bound fails: with
  \<open>concurrency = 2\<close> and three files, three lookups are in flight after the first three
  events of the run.  \<open>files.map\<close> calls \<open>stat\<close> for every file before any lookup can
  settle, and nothing in the stat phase reads \<open>concurrency\<close> or \<open>windowSize\<close>.
\<close>

theorem stat_lookups_unbounded_counterexample:
  "concurrency demo_opt = 2 \<and>
   take 3 (timeline (run_batch demo_opt demo_env accepting_client
      [''a.js'', ''b.js'', ''c.js''] (concurrency demo_opt) [] [])) =
     [StatIssued ''dist/a.js'', StatIssued ''dist/b.js'', StatIssued ''dist/c.js''] \<and>
   stats_in_flight (take 3 (timeline (run_batch demo_opt demo_env accepting_client
      [''a.js'', ''b.js'', ''c.js''] (concurrency demo_opt) [] []))) = 3 \<and>
   \<not> int (stats_in_flight (take 3 (timeline (run_batch demo_opt demo_env accepting_client
      [''a.js'', ''b.js'', ''c.js''] (concurrency demo_opt) [] [])))) \<le> concurrency demo_opt"
  by code_simp

text \<open>
  Claim C5, amended.  For every batch run of \<open>N\<close> candidates the run starts with the
  \<open>N\<close> stat lookups being issued, one per candidate and in candidate order, so that all
  \<open>N\<close> are in flight together whatever the concurrency is; then the \<open>N\<close> lookups
  settle, in some order; and only then do the workers start: no stat event comes later,
  and no transfer has begun before the last lookup settled.
\<close>

theorem stat_phase_first:
  "take (length files) (timeline (run_batch opt env client files windowSize stat_sched sched)) =
     map StatIssued (map (candidate_path opt env) files) \<and>
   stats_in_flight
     (take (length files) (timeline (run_batch opt env client files windowSize stat_sched sched))) =
     length files \<and>
   take (length files)
     (drop (length files) (timeline (run_batch opt env client files windowSize stat_sched sched))) =
     map StatSettled (settle_order stat_sched (map (candidate_path opt env) files)) \<and>
   mset (settle_order stat_sched (map (candidate_path opt env) files)) =
     mset (map (candidate_path opt env) files) \<and>
   stats_in_flight
     (take (2 * length files) (timeline (run_batch opt env client files windowSize stat_sched sched))) = 0 \<and>
   begun_indices
     (take (2 * length files) (timeline (run_batch opt env client files windowSize stat_sched sched))) = [] \<and>
   filter is_stat_event
     (drop (2 * length files) (timeline (run_batch opt env client files windowSize stat_sched sched))) = []"
proof -
  define issued where "issued = map StatIssued (map (candidate_path opt env) files)"
  define settled where
    "settled = map StatSettled (settle_order stat_sched (map (candidate_path opt env) files))"
  obtain rest where tl: "timeline (run_batch opt env client files windowSize stat_sched sched) =
      issued @ settled @ rest" and rest: "filter is_stat_event rest = []"
    using run_batch_timeline [of opt env client files windowSize stat_sched sched]
    by (auto simp: stat_events_def issued_def settled_def)
  have li: "length issued = length files" by (simp add: issued_def)
  have ls: "length settled = length files" by (simp add: settled_def settle_order_length)
  have se: "stat_events opt env files stat_sched = issued @ settled"
    by (simp add: stat_events_def issued_def settled_def)
  have 1: "take (length files) (timeline (run_batch opt env client files windowSize stat_sched sched)) =
      issued"
    by (simp add: tl li)
  have 2: "stats_in_flight issued = length files"
    by (simp add: stats_in_flight_def issued_def in_flight_issued del: map_map)
  have 3: "take (length files)
     (drop (length files) (timeline (run_batch opt env client files windowSize stat_sched sched))) =
     settled"
    by (simp add: tl li ls)
  have 4: "take (2 * length files)
      (timeline (run_batch opt env client files windowSize stat_sched sched)) = issued @ settled"
    using li ls by (simp add: tl)
  have 5: "stats_in_flight (issued @ settled) = 0"
    by (simp add: stats_in_flight_def in_flight_append issued_def settled_def in_flight_issued
          in_flight_settled settle_order_length del: map_map)
  have 6: "begun_indices (issued @ settled) = []"
    using stat_events_no_transfer(2) [of opt env files stat_sched] by (simp only: se)
  have 7: "drop (2 * length files)
      (timeline (run_batch opt env client files windowSize stat_sched sched)) = rest"
    using li ls by (simp add: tl)
  show ?thesis
    unfolding 1 3 4 7
    using 2 5 6 rest settle_order_mset [of stat_sched "map (candidate_path opt env) files"]
    by (simp only: issued_def settled_def simp_thms)
qed

text \<open>Three candidates whose lookups settle in the order third, first, second.\<close>

theorem stat_phase_first_witness:
  "take 6 (timeline (run_batch demo_opt demo_env accepting_client
      [''a.js'', ''b.js'', ''c.js''] 2 [2, 0] [])) =
     [StatIssued ''dist/a.js'', StatIssued ''dist/b.js'', StatIssued ''dist/c.js'',
      StatSettled ''dist/c.js'', StatSettled ''dist/a.js'', StatSettled ''dist/b.js''] \<and>
   stats_in_flight (take 3 (timeline (run_batch demo_opt demo_env accepting_client
      [''a.js'', ''b.js'', ''c.js''] 2 [2, 0] []))) = 3 \<and>
   filter is_stat_event (drop 6 (timeline (run_batch demo_opt demo_env accepting_client
      [''a.js'', ''b.js'', ''c.js''] 2 [2, 0] []))) = []"
proof -
  note t = stat_phase_first [of "[''a.js'', ''b.js'', ''c.js'']" demo_opt demo_env
      accepting_client 2 "[2, 0]" "[]"]
  have 1: "take 6 (timeline (run_batch demo_opt demo_env accepting_client
      [''a.js'', ''b.js'', ''c.js''] 2 [2, 0] [])) =
     [StatIssued ''dist/a.js'', StatIssued ''dist/b.js'', StatIssued ''dist/c.js'',
      StatSettled ''dist/c.js'', StatSettled ''dist/a.js'', StatSettled ''dist/b.js'']"
    by code_simp
  have 2: "stats_in_flight (take 3 (timeline (run_batch demo_opt demo_env accepting_client
      [''a.js'', ''b.js'', ''c.js''] 2 [2, 0] []))) = 3"
    using t [THEN conjunct2, THEN conjunct1] by (simp add: numeral_3_eq_3)
  have 3: "filter is_stat_event (drop 6 (timeline (run_batch demo_opt demo_env accepting_client
      [''a.js'', ''b.js'', ''c.js''] 2 [2, 0] []))) = []"
    using t by (elim conjE) simp
  from 1 2 3 show ?thesis by (intro conjI)
qed

section \<open>What the run does not depend on\<close>

lemma uploadAttempts_cong:
  assumes "\<And>a. transfer_response opt' client task a = transfer_response opt client task a"
    and "transfer_call opt' task = transfer_call opt task"
    and "cleanup_effects opt' env task = cleanup_effects opt env task"
  shows "uploadAttempts opt' env client task silentLogs R attempt =
         uploadAttempts opt env client task silentLogs R attempt"
proof (induction "nat (R + 1 - attempt)" arbitrary: attempt)
  case 0
  then have "R < attempt" by simp
  then show ?case by (simp add: uploadAttempts_past)
next
  case (Suc n)
  then have le: "attempt \<le> R" by simp
  show ?case
  proof (cases "attempt_error (transfer_response opt client task attempt)")
    case None
    then show ?thesis
      by (simp add: uploadAttempts_succeeded [OF le] assms)
  next
    case (Some err)
    show ?thesis
    proof (cases "attempt = R")
      case True
      with Some show ?thesis by (simp add: uploadAttempts_failed_last assms)
    next
      case False
      with le have lt: "attempt < R" by simp
      have e': "attempt_error (transfer_response opt' client task attempt) = Some err"
        using Some by (simp add: assms)
      have "uploadAttempts opt' env client task silentLogs R (attempt + 1) =
            uploadAttempts opt env client task silentLogs R (attempt + 1)"
        using Suc.hyps(2) lt by (intro Suc.hyps(1)) simp
      then show ?thesis
        by (simp add: uploadAttempts_failed_step [OF lt Some]
              uploadAttempts_failed_step [OF lt e'] assms)
    qed
  qed
qed

lemma uploadFileWithRetry_failOnError:
  "uploadFileWithRetry (opt\<lparr>failOnError := b\<rparr>) env client task silentLogs R =
   uploadFileWithRetry opt env client task silentLogs R"
  unfolding uploadFileWithRetry_def
  by (rule uploadAttempts_cong)
     (simp_all add: transfer_response_def transfer_call_def cleanup_effects_def
        shouldUseMultipart_def request_headers_def)

lemma settle_failOnError:
  "settle (opt\<lparr>failOnError := b\<rparr>) env client tasks k s = settle opt env client tasks k s"
  by (simp add: settle_def worker_resume_def uploadFileWithRetry_failOnError)

lemma drain_failOnError:
  "drain (opt\<lparr>failOnError := b\<rparr>) env client tasks sched s = drain opt env client tasks sched s"
proof (induction opt env client tasks sched s rule: drain.induct)
  case (1 opt env client tasks sched s)
  show ?case
  proof (cases "awaiting s = []")
    case True
    then show ?thesis by (simp add: drain.simps [where s = s])
  next
    case False
    with "1.IH" [OF False] show ?thesis
      by (simp add: drain.simps [where s = s] settle_failOnError)
  qed
qed

lemma run_batch_failOnError:
  "run_batch (opt\<lparr>failOnError := b\<rparr>) env client files windowSize stat_sched sched =
   run_batch opt env client files windowSize stat_sched sched"
proof -
  have c: "taskCandidate (opt\<lparr>failOnError := b\<rparr>) env = taskCandidate opt env"
    by (rule ext) (simp add: taskCandidate_def candidate_path_def cong: sum.case_cong)
  have p: "candidate_path (opt\<lparr>failOnError := b\<rparr>) env = candidate_path opt env"
    by (rule ext) (simp add: candidate_path_def)
  have e: "stat_events (opt\<lparr>failOnError := b\<rparr>) env files stat_sched =
           stat_events opt env files stat_sched"
    by (simp add: stat_events_def p)
  show ?thesis
    by (simp add: run_batch_def c e drain_failOnError)
qed

text \<open>
  What \<open>unlink\<close> does shows in the effects of a transfer and nowhere else: two runs
  that differ in \<open>unlink\<close> go through states that differ in the timeline only.
\<close>

lemma uploadFileWithRetry_unlink:
  "fst (uploadFileWithRetry opt (env\<lparr>unlink := u\<rparr>) client task silentLogs R) =
   fst (uploadFileWithRetry opt env client task silentLogs R)"
  unfolding uploadFileWithRetry_def by (rule uploadAttempts_result_env)

lemma settle_unlink:
  "\<exists>t'. settle opt (env\<lparr>unlink := u\<rparr>) client tasks k (s\<lparr>timeline := t\<rparr>) =
         (settle opt env client tasks k s)\<lparr>timeline := t'\<rparr>"
proof -
  obtain w i where wi: "awaiting s ! k = (w, i)" by (cases "awaiting s ! k")
  obtain r effs where a: "uploadFileWithRetry opt env client (tasks ! i)
      (useInteractiveOutput opt) (retryTimes opt) = (r, effs)"
    by (cases "uploadFileWithRetry opt env client (tasks ! i)
      (useInteractiveOutput opt) (retryTimes opt)")
  obtain r' effs' where b: "uploadFileWithRetry opt (env\<lparr>unlink := u\<rparr>) client (tasks ! i)
      (useInteractiveOutput opt) (retryTimes opt) = (r', effs')"
    by (cases "uploadFileWithRetry opt (env\<lparr>unlink := u\<rparr>) client (tasks ! i)
      (useInteractiveOutput opt) (retryTimes opt)")
  have "r' = r"
    using uploadFileWithRetry_unlink [where opt = opt and env = env and u = u
        and client = client and task = "tasks ! i"
        and silentLogs = "useInteractiveOutput opt" and R = "retryTimes opt"] a b by simp
  then have "settle opt (env\<lparr>unlink := u\<rparr>) client tasks k (s\<lparr>timeline := t\<rparr>) =
         (settle opt env client tasks k s)
           \<lparr>timeline := t @ [TransferSettled w i effs',
              if length tasks \<le> currentIndex s then WorkerReturned w
              else TransferBegun w (currentIndex s)]\<rparr>"
    by (simp add: settle_def worker_resume_def wi a b worker_claim_def updateProgress_def
          record_result_def)
  then show ?thesis by blast
qed

lemma drain_unlink:
  "\<forall>t. results (drain opt (env\<lparr>unlink := u\<rparr>) client tasks sched (s\<lparr>timeline := t\<rparr>)) =
        results (drain opt env client tasks sched s)"
proof (induction opt env client tasks sched s rule: drain.induct)
  case (1 opt env client tasks sched s)
  show ?case
  proof (cases "awaiting s = []")
    case True
    then show ?thesis
      by (simp add: drain.simps [where s = s] drain.simps [where s = "s\<lparr>timeline := t\<rparr>" for t])
  next
    case False
    show ?thesis
    proof
      fix t
      define k where "k = next_choice sched mod length (awaiting s)"
      obtain t' where st: "settle opt (env\<lparr>unlink := u\<rparr>) client tasks k (s\<lparr>timeline := t\<rparr>) =
          (settle opt env client tasks k s)\<lparr>timeline := t'\<rparr>"
        using settle_unlink by blast
      have "drain opt (env\<lparr>unlink := u\<rparr>) client tasks sched (s\<lparr>timeline := t\<rparr>) =
            drain opt (env\<lparr>unlink := u\<rparr>) client tasks (tl sched)
              ((settle opt env client tasks k s)\<lparr>timeline := t'\<rparr>)"
        using False
        by (simp add: drain.simps [where s = "s\<lparr>timeline := t\<rparr>"] k_def [symmetric] st)
      moreover have "drain opt env client tasks sched s =
            drain opt env client tasks (tl sched) (settle opt env client tasks k s)"
        using False by (simp add: drain.simps [where s = s] k_def)
      ultimately show "results (drain opt (env\<lparr>unlink := u\<rparr>) client tasks sched
            (s\<lparr>timeline := t\<rparr>)) =
          results (drain opt env client tasks sched s)"
        using "1.IH" [OF False] by (simp add: k_def)
    qed
  qed
qed

lemma results_unlink:
  "uploadFilesInBatches opt (env\<lparr>unlink := u\<rparr>) client files windowSize stat_sched sched =
   uploadFilesInBatches opt env client files windowSize stat_sched sched"
proof -
  have c: "taskCandidate opt (env\<lparr>unlink := u\<rparr>) = taskCandidate opt env"
    by (rule ext)
       (simp add: taskCandidate_def candidate_path_def normalizeObjectKey_def cong: sum.case_cong)
  have p: "candidate_path opt (env\<lparr>unlink := u\<rparr>) = candidate_path opt env"
    by (rule ext) (simp add: candidate_path_def)
  have e: "stat_events opt (env\<lparr>unlink := u\<rparr>) files stat_sched =
           stat_events opt env files stat_sched"
    by (simp add: stat_events_def p)
  have t: "batch_tasks opt (env\<lparr>unlink := u\<rparr>) files = batch_tasks opt env files"
    by (simp add: batch_tasks_def c)
  have s: "start_state opt (env\<lparr>unlink := u\<rparr>) files stat_sched =
           start_state opt env files stat_sched"
    by (simp add: start_state_def c e)
  define s0 where "s0 = fold (spawn_worker (batch_tasks opt env files))
          [0..<safeWindowSize windowSize (batch_tasks opt env files)]
          (start_state opt env files stat_sched)"
  have "results (drain opt (env\<lparr>unlink := u\<rparr>) client (batch_tasks opt env files) sched
          (s0\<lparr>timeline := timeline s0\<rparr>)) =
        results (drain opt env client (batch_tasks opt env files) sched s0)"
    using drain_unlink by blast
  then show ?thesis
    by (simp add: uploadFilesInBatches_def run_batch_eq t s s0_def)
qed

lemma summarise_unlink:
  "summarise (uploadFilesInBatches opt (env\<lparr>unlink := u\<rparr>) client files windowSize stat_sched sched) =
   summarise (uploadFilesInBatches opt env client files windowSize stat_sched sched)"
  by (simp only: results_unlink)

lemma summarise_counts: "successCount (summarise rs) + failedCount (summarise rs) = length rs"
  by (simp add: summarise_def)

section \<open>Claims about failures\<close>

text \<open>
  Claim C7.  \<open>closeBundle\<close> throws exactly when it ran the upload, at least one result
  has \<open>success = false\<close> and \<open>failOnError\<close> is set.  When it ran the upload, what it
  collected is the whole array returned by \<open>uploadFilesInBatches\<close>, one result per file
  found, failures included, and its figures are computed from that array before the
  decision; in the run every transfer that was begun has settled and no worker is left
  waiting.  Neither the results nor the figures depend on \<open>failOnError\<close>.  (The
  construction of the client, before the \<open>try\<close> block, is taken to succeed.)
\<close>

theorem fail_on_error_after_drain:
  "(thrown (closeBundle_handler opt ps env client found stat_sched sched) \<noteq> None) =
     (case summary (closeBundle_handler opt ps env client found stat_sched sched) of
        None \<Rightarrow> False
      | Some sm \<Rightarrow> 0 < failedCount sm \<and> failOnError opt) \<and>
   (case collected (closeBundle_handler opt ps env client found stat_sched sched) of
      None \<Rightarrow> summary (closeBundle_handler opt ps env client found stat_sched sched) = None
    | Some rs \<Rightarrow>
        rs = uploadFilesInBatches opt env client (map (normalizePath env) found)
               (concurrency opt) stat_sched sched \<and>
        length rs = length found \<and>
        summary (closeBundle_handler opt ps env client found stat_sched sched) =
          Some (summarise rs) \<and>
        successCount (summarise rs) + failedCount (summarise rs) = length found) \<and>
   awaiting (run_batch opt env client (map (normalizePath env) found)
               (concurrency opt) stat_sched sched) = [] \<and>
   mset (settled_indices (timeline (run_batch opt env client (map (normalizePath env) found)
               (concurrency opt) stat_sched sched))) =
     mset (begun_indices (timeline (run_batch opt env client (map (normalizePath env) found)
               (concurrency opt) stat_sched sched))) \<and>
   collected (closeBundle_handler (opt\<lparr>failOnError := b\<rparr>) ps env client found stat_sched sched) =
     collected (closeBundle_handler opt ps env client found stat_sched sched) \<and>
   summary (closeBundle_handler (opt\<lparr>failOnError := b\<rparr>) ps env client found stat_sched sched) =
     summary (closeBundle_handler opt ps env client found stat_sched sched)"
proof -
  have len: "length (uploadFilesInBatches opt env client (map (normalizePath env) found)
               (concurrency opt) stat_sched sched) = length found"
    by (simp add: uploadFilesInBatches_def run_batch_length)
  have 1: "(thrown (closeBundle_handler opt ps env client found stat_sched sched) \<noteq> None) =
     (case summary (closeBundle_handler opt ps env client found stat_sched sched) of
        None \<Rightarrow> False
      | Some sm \<Rightarrow> 0 < failedCount sm \<and> failOnError opt)"
    by (simp add: closeBundle_handler_def)
  have 2: "(case collected (closeBundle_handler opt ps env client found stat_sched sched) of
      None \<Rightarrow> summary (closeBundle_handler opt ps env client found stat_sched sched) = None
    | Some rs \<Rightarrow>
        rs = uploadFilesInBatches opt env client (map (normalizePath env) found)
               (concurrency opt) stat_sched sched \<and>
        length rs = length found \<and>
        summary (closeBundle_handler opt ps env client found stat_sched sched) =
          Some (summarise rs) \<and>
        successCount (summarise rs) + failedCount (summarise rs) = length found)"
    by (simp add: closeBundle_handler_def len summarise_counts)
  have 3: "awaiting (run_batch opt env client (map (normalizePath env) found)
               (concurrency opt) stat_sched sched) = []"
    by (rule run_batch_awaiting)
  have 4: "mset (settled_indices (timeline (run_batch opt env client (map (normalizePath env) found)
               (concurrency opt) stat_sched sched))) =
     mset (begun_indices (timeline (run_batch opt env client (map (normalizePath env) found)
               (concurrency opt) stat_sched sched)))"
    by (simp only: run_batch_settled run_batch_begun)
  have 5: "collected (closeBundle_handler (opt\<lparr>failOnError := b\<rparr>) ps env client found stat_sched sched) =
     collected (closeBundle_handler opt ps env client found stat_sched sched)"
    by (simp add: closeBundle_handler_def uploadFilesInBatches_def run_batch_failOnError)
  have 6: "summary (closeBundle_handler (opt\<lparr>failOnError := b\<rparr>) ps env client found stat_sched sched) =
     summary (closeBundle_handler opt ps env client found stat_sched sched)"
    by (simp add: closeBundle_handler_def uploadFilesInBatches_def run_batch_failOnError)
  from 1 2 3 4 5 6 show ?thesis by (intro conjI)
qed


text \<open>
  A readable file that the store refuses three times and an unreadable one, with
  \<open>failOnError\<close> set and unset; and one file that is uploaded.
\<close>

theorem fail_on_error_after_drain_witness:
  "thrown (closeBundle_handler demo_opt armed demo_env failing_client [''a.js'', ''gone.js''] [] []) \<noteq> None \<and>
   summary (closeBundle_handler demo_opt armed demo_env failing_client [''a.js'', ''gone.js''] [] []) =
     Some \<lparr> successCount = 0, failedCount = 2, summary_uploadedBytes = Finite 0, retryCount = 2 \<rparr> \<and>
   thrown (closeBundle_handler (demo_opt\<lparr>failOnError := False\<rparr>) armed demo_env failing_client
     [''a.js'', ''gone.js''] [] []) = None \<and>
   summary (closeBundle_handler (demo_opt\<lparr>failOnError := False\<rparr>) armed demo_env failing_client
     [''a.js'', ''gone.js''] [] []) =
     Some \<lparr> successCount = 0, failedCount = 2, summary_uploadedBytes = Finite 0, retryCount = 2 \<rparr> \<and>
   thrown (closeBundle_handler demo_opt armed demo_env accepting_client [''a.js''] [] []) = None"
proof -
  note t = fail_on_error_after_drain [of demo_opt armed demo_env failing_client
      "[''a.js'', ''gone.js'']" "[]" "[]" False]
  note u = fail_on_error_after_drain [of "demo_opt\<lparr>failOnError := False\<rparr>" armed demo_env
      failing_client "[''a.js'', ''gone.js'']" "[]" "[]" False]
  have s: "summary (closeBundle_handler demo_opt armed demo_env failing_client
        [''a.js'', ''gone.js''] [] []) =
     Some \<lparr> successCount = 0, failedCount = 2, summary_uploadedBytes = Finite 0, retryCount = 2 \<rparr>"
    by code_simp
  have f: "failOnError demo_opt" by (simp add: demo_opt_def)
  have 1: "thrown (closeBundle_handler demo_opt armed demo_env failing_client
        [''a.js'', ''gone.js''] [] []) \<noteq> None"
    using t [THEN conjunct1] by (simp add: s f)
  have 4: "summary (closeBundle_handler (demo_opt\<lparr>failOnError := False\<rparr>) armed demo_env
        failing_client [''a.js'', ''gone.js''] [] []) =
     Some \<lparr> successCount = 0, failedCount = 2, summary_uploadedBytes = Finite 0, retryCount = 2 \<rparr>"
    using t by (elim conjE) (simp add: s)
  have 3: "thrown (closeBundle_handler (demo_opt\<lparr>failOnError := False\<rparr>) armed demo_env
        failing_client [''a.js'', ''gone.js''] [] []) = None"
    using u [THEN conjunct1] by (simp add: 4)
  have 5: "thrown (closeBundle_handler demo_opt armed demo_env accepting_client [''a.js''] [] []) = None"
    by code_simp
  from 1 s 3 4 5 show ?thesis by (intro conjI)
qed

text \<open>
  Claim C9.  With \<open>autoDelete\<close> set, when an attempt within the budget is answered with
  status 200 and \<open>unlink\<close> fails, \<open>uploadFileWithRetry\<close> still returns \<open>success = true\<close>
  with no error; the last things it does are the \<open>unlink\<close> and the warning on the
  console.  The result of a transfer is the same whatever \<open>unlink\<close> does, and so are the
  figures \<open>closeBundle\<close> computes for a batch.
\<close>

theorem cleanup_failure_not_counted:
  assumes "autoDelete opt"
    and "unlink env (filePath task) = Some e"
    and "1 \<le> a" and "a \<le> maxRetries"
    and "attempt_error (transfer_response opt client task a) = None"
  shows "success (fst (uploadFileWithRetry opt env client task silentLogs maxRetries)) \<and>
         error (fst (uploadFileWithRetry opt env client task silentLogs maxRetries)) = None \<and>
         (\<exists>pre. snd (uploadFileWithRetry opt env client task silentLogs maxRetries) =
                  pre @ [UnlinkCall (filePath task), WarnUnlinkFailed (filePath task)]) \<and>
         fst (uploadFileWithRetry opt (env\<lparr>unlink := u\<rparr>) client task silentLogs maxRetries) =
           fst (uploadFileWithRetry opt env client task silentLogs maxRetries) \<and>
         summarise (uploadFilesInBatches opt (env\<lparr>unlink := u\<rparr>) client files windowSize
                      stat_sched sched) =
           summarise (uploadFilesInBatches opt env client files windowSize stat_sched sched)"
proof -
  have c: "cleanup_effects opt env task =
           [UnlinkCall (filePath task), WarnUnlinkFailed (filePath task)]"
    using assms(1,2) by (simp add: cleanup_effects_def)
  note ev = eventual_success [OF assms(3,4,5), where env = env and silentLogs = silentLogs]
  have 1: "success (fst (uploadFileWithRetry opt env client task silentLogs maxRetries))"
    and 2: "error (fst (uploadFileWithRetry opt env client task silentLogs maxRetries)) = None"
    and 3: "\<exists>pre. snd (uploadFileWithRetry opt env client task silentLogs maxRetries) =
                  pre @ [UnlinkCall (filePath task), WarnUnlinkFailed (filePath task)]"
    using ev unfolding uploadFileWithRetry_def c by blast+
  have 4: "fst (uploadFileWithRetry opt (env\<lparr>unlink := u\<rparr>) client task silentLogs maxRetries) =
           fst (uploadFileWithRetry opt env client task silentLogs maxRetries)"
    unfolding uploadFileWithRetry_def by (rule uploadAttempts_result_env)
  from 1 2 3 4 summarise_unlink [where opt = opt and env = env and u = u and client = client
      and files = files and windowSize = windowSize and stat_sched = stat_sched and sched = sched]
  show ?thesis by (intro conjI)
qed

text \<open>
  The store rejects the first call and accepts the second; no file can be removed.
\<close>

theorem cleanup_failure_not_counted_witness:
  "autoDelete demo_opt \<and>
   unlink demo_env (filePath demo_task) = Some (FsError ''EPERM'') \<and>
   attempt_error (transfer_response demo_opt flaky_client demo_task 2) = None \<and>
   success (fst (uploadFileWithRetry demo_opt demo_env flaky_client demo_task False 3)) \<and>
   error (fst (uploadFileWithRetry demo_opt demo_env flaky_client demo_task False 3)) = None \<and>
   retries (fst (uploadFileWithRetry demo_opt demo_env flaky_client demo_task False 3)) = 1 \<and>
   drop 4 (snd (uploadFileWithRetry demo_opt demo_env flaky_client demo_task False 3)) =
     [UnlinkCall ''dist/a.js'', WarnUnlinkFailed ''dist/a.js''] \<and>
   summarise (uploadFilesInBatches demo_opt (demo_env\<lparr>unlink := (\<lambda>p. None)\<rparr>) flaky_client
       [''a.js'', ''b.js''] 2 [] []) =
     summarise (uploadFilesInBatches demo_opt demo_env flaky_client [''a.js'', ''b.js''] 2 [] [])"
proof -
  have a: "autoDelete demo_opt" by (simp add: demo_opt_def)
  have b: "unlink demo_env (filePath demo_task) = Some (FsError ''EPERM'')"
    by (simp add: demo_env_def)
  have c: "(1::int) \<le> 2" and d: "(2::int) \<le> 3" by simp_all
  have e: "attempt_error (transfer_response demo_opt flaky_client demo_task 2) = None"
    by code_simp
  note t = cleanup_failure_not_counted [OF a b c d e, where silentLogs = False
      and u = "\<lambda>p. None" and files = "[''a.js'', ''b.js'']" and windowSize = 2
      and stat_sched = "[]" and sched = "[]"]
  have 1: "success (fst (uploadFileWithRetry demo_opt demo_env flaky_client demo_task False 3))"
    using t by (elim conjE)
  have 2: "error (fst (uploadFileWithRetry demo_opt demo_env flaky_client demo_task False 3)) = None"
    using t by (elim conjE)
  have 3: "retries (fst (uploadFileWithRetry demo_opt demo_env flaky_client demo_task False 3)) = 1"
    by code_simp
  have 4: "drop 4 (snd (uploadFileWithRetry demo_opt demo_env flaky_client demo_task False 3)) =
     [UnlinkCall ''dist/a.js'', WarnUnlinkFailed ''dist/a.js'']"
    by code_simp
  have 5: "summarise (uploadFilesInBatches demo_opt (demo_env\<lparr>unlink := (\<lambda>p. None)\<rparr>) flaky_client
       [''a.js'', ''b.js''] 2 [] []) =
     summarise (uploadFilesInBatches demo_opt demo_env flaky_client [''a.js'', ''b.js''] 2 [] [])"
    using t by (elim conjE)
  from a b e 1 2 3 4 5 show ?thesis by (intro conjI)
qed

end
